theory Spec2Isabelle
  imports Complex_Main "HOL-Library.AList" "HOL-Library.Char_ord" "HOL-Library.List_Lexorder" "HOL-Library.Multiset"
begin

section \<open>Road graph augmentation and validation\<close>

text \<open>
  A shallow embedding of \<^verbatim>\<open>scripts/augment_road_segments.py\<close> and
  \<^verbatim>\<open>scripts/validate_road_graph.py\<close>. Python floats are modelled as reals (so
  rounding error is left out), Python ints as \<open>nat\<close> where they count something. A raised
  exception is the \<open>Inl\<close> of a sum; a recursion that Python could run forever is an
  \<open>option\<close> whose \<open>None\<close> means "does not return".
\<close>

subsection \<open>Exceptions and sequencing\<close>

datatype error = IndexError | KeyError | ValueError | ZeroDivisionError | AssertionError

fun bindR :: "error + 'a \<Rightarrow> ('a \<Rightarrow> error + 'b) \<Rightarrow> error + 'b" where
  "bindR (Inl e) f = Inl e"
| "bindR (Inr a) f = f a"

text \<open>A \<^verbatim>\<open>for\<close> loop that builds one result per element, stopping at the first raise.\<close>

fun mapR :: "('a \<Rightarrow> error + 'b) \<Rightarrow> 'a list \<Rightarrow> error + 'b list" where
  "mapR f [] = Inr []"
| "mapR f (x # xs) = bindR (f x) (\<lambda>y. bindR (mapR f xs) (\<lambda>ys. Inr (y # ys)))"

text \<open>A \<^verbatim>\<open>for\<close> loop that updates a state, stopping at the first raise.\<close>

fun foldR :: "('a \<Rightarrow> 's \<Rightarrow> error + 's) \<Rightarrow> 'a list \<Rightarrow> 's \<Rightarrow> error + 's" where
  "foldR f [] s = Inr s"
| "foldR f (x # xs) s = bindR (f x s) (foldR f xs)"

text \<open>The same two shapes for code that calls \<^verbatim>\<open>UnionFind.find\<close>, which may not return.\<close>

fun bindE :: "(error + 'a) option \<Rightarrow> ('a \<Rightarrow> (error + 'b) option) \<Rightarrow> (error + 'b) option" where
  "bindE None f = None"
| "bindE (Some (Inl e)) f = Some (Inl e)"
| "bindE (Some (Inr a)) f = f a"

fun foldE :: "('a \<Rightarrow> 's \<Rightarrow> (error + 's) option) \<Rightarrow> 'a list \<Rightarrow> 's \<Rightarrow> (error + 's) option" where
  "foldE f [] s = Some (Inr s)"
| "foldE f (x # xs) s = bindE (f x s) (foldE f xs)"

text \<open>Python floats are modelled as reals: every operation is exact where a double rounds
  its result. The two agree wherever no rounding error decides an outcome; they can differ
  where a computed value lies within rounding error of a comparison threshold or of a decimal
  tie of \<^verbatim>\<open>round\<close>.\<close>

definition py_div :: "real \<Rightarrow> real \<Rightarrow> error + real" where
  "py_div a b = (if b = 0 then Inl ZeroDivisionError else Inr (a / b))"

text \<open>\<^verbatim>\<open>min(xs)\<close> and \<^verbatim>\<open>max(xs)\<close> raise ValueError on an empty sequence.\<close>

definition py_min :: "real list \<Rightarrow> error + real" where
  "py_min xs = (case xs of [] \<Rightarrow> Inl ValueError | y # ys \<Rightarrow> Inr (fold min ys y))"

definition py_max :: "real list \<Rightarrow> error + real" where
  "py_max xs = (case xs of [] \<Rightarrow> Inl ValueError | y # ys \<Rightarrow> Inr (fold max ys y))"

text \<open>\<^verbatim>\<open>round(x, n)\<close>: to the nearest multiple of \<open>10^-n\<close>, a tie going to the even one.
  Python decides the tie on the exact value of the double it is given; here it is decided on
  the exact real, so the two can differ when the real is a decimal tie that no double
  represents (the double nearest to \<open>0.4625\<close> lies above it and rounds to \<open>0.463\<close>).\<close>

definition round_half_even :: "real \<Rightarrow> int" where
  "round_half_even r =
     (let f = \<lfloor>r\<rfloor>; d = r - of_int f
      in if d < 1 / 2 then f else if 1 / 2 < d then f + 1 else if even f then f else f + 1)"

definition py_round :: "real \<Rightarrow> nat \<Rightarrow> real" where
  "py_round v n = of_int (round_half_even (v * 10 ^ n)) / 10 ^ n"

text \<open>\<^verbatim>\<open>a % b\<close> on floats takes the sign of \<open>b\<close>.\<close>

definition py_mod :: "real \<Rightarrow> real \<Rightarrow> real" where
  "py_mod a b = a - b * of_int \<lfloor>a / b\<rfloor>"

text \<open>\<^verbatim>\<open>math.atan2(y, x)\<close>, the angle of the point \<open>(x, y)\<close> in \<open>(-pi, pi]\<close>. A float zero
  carries a sign and a real does not, so the sign of a zero \<open>x\<close> is a third argument:
  \<^verbatim>\<open>atan2(0.0, -0.0)\<close> is \<open>pi\<close> and \<^verbatim>\<open>atan2(0.0, 0.0)\<close> is \<open>0\<close>.\<close>

definition py_atan2 :: "real \<Rightarrow> real \<Rightarrow> bool \<Rightarrow> real" where
  "py_atan2 y x x_negative_zero =
     (if 0 < x then arctan (y / x)
      else if x < 0 then (if 0 \<le> y then arctan (y / x) + pi else arctan (y / x) - pi)
      else if 0 < y then pi / 2
      else if y < 0 then - (pi / 2)
      else if x_negative_zero then pi
      else 0)"

text \<open>\<^verbatim>\<open>f"{i}"\<close> and \<^verbatim>\<open>f"{i:04d}"\<close>: a number in decimal, the second padded with zeros to four digits.\<close>

definition digit_char :: "nat \<Rightarrow> char" where
  "digit_char d = ''0123456789'' ! d"

fun str_nat :: "nat \<Rightarrow> string" where
  "str_nat n = (if n < 10 then [digit_char n] else str_nat (n div 10) @ [digit_char (n mod 10)])"

declare str_nat.simps [simp del]

definition str_nat_04 :: "nat \<Rightarrow> string" where
  "str_nat_04 n = replicate (4 - length (str_nat n)) (CHR ''0'') @ str_nat n"

subsection \<open>Constants\<close>

definition SNAP_RADIUS :: real where "SNAP_RADIUS = 10"
definition ANGLE_THRESHOLD :: real where "ANGLE_THRESHOLD = 60"
definition SPAWN_RATE_THRESHOLD :: real where "SPAWN_RATE_THRESHOLD = 0.30"
definition SPEED_RATIO_THRESHOLD :: real where "SPEED_RATIO_THRESHOLD = 0.50"
definition LENGTH_THRESHOLD :: real where "LENGTH_THRESHOLD = 150"
definition BOUNDARY_BUFFER :: real where "BOUNDARY_BUFFER = 50"

subsection \<open>Records\<close>

type_synonym point3d = "real \<times> real \<times> real"

definition px :: "point3d \<Rightarrow> real" where "px p = fst p"
definition pz :: "point3d \<Rightarrow> real" where "pz p = snd (snd p)"

record endpoint =
  ep_x :: real
  ep_z :: real
  segment_id :: string
  is_start :: bool

record road_node =
  node_id :: string
  position :: "real \<times> real"
  outgoing :: "string list"
  incoming :: "string list"
  isBoundary :: bool

text \<open>The module-level \<^verbatim>\<open>DATA_BOUNDS\<close>, once \<^verbatim>\<open>compute_data_bounds\<close> has filled it.\<close>

record data_bounds =
  xMin :: real
  xMax :: real
  zMin :: real
  zMax :: real

text \<open>
  A segment is a Python dict that the stages extend key by key. The input record has the
  keys the script reads; each stage's output type adds the keys that stage writes.
\<close>

record segment =
  seg_id :: string
  points :: "point3d list"
  avgSpeedMph :: real
  freeFlowSpeedMph :: real
  spawnRates :: "real list"

record adj_segment = segment +
  startHeadingDeg :: real
  endHeadingDeg :: real
  successors :: "string list"
  predecessors :: "string list"

record graph_segment = adj_segment +
  startNodeId :: string
  endNodeId :: string
  speedRatio :: real
  lengthMeters :: real
  isMajor :: bool
  isEntry :: bool

subsection \<open>Helper functions\<close>

definition distance :: "endpoint \<Rightarrow> endpoint \<Rightarrow> real" where
  "distance p1 p2 =
     (let dx = ep_x p1 - ep_x p2; dz = ep_z p1 - ep_z p2 in sqrt (dx * dx + dz * dz))"

text \<open>The coordinates are floats. The difference of two equal floats is \<^verbatim>\<open>0.0\<close>, so a
  \<^verbatim>\<open>-dz\<close> that is zero is \<^verbatim>\<open>-0.0\<close>, and a leg of length zero has heading 180.\<close>

definition compute_heading :: "point3d \<Rightarrow> point3d \<Rightarrow> real" where
  "compute_heading from_pt to_pt =
     (let dx = px to_pt - px from_pt;
          dz = pz to_pt - pz from_pt;
          heading = py_atan2 dx (- dz) True * 180 / pi
      in py_mod (heading + 360) 360)"

definition angle_difference :: "real \<Rightarrow> real \<Rightarrow> real" where
  "angle_difference h1 h2 = (let diff = \<bar>h1 - h2\<bar> in min diff (360 - diff))"

definition leg_length :: "point3d \<Rightarrow> point3d \<Rightarrow> real" where
  "leg_length p q = (let dx = px q - px p; dz = pz q - pz p in sqrt (dx * dx + dz * dz))"

definition compute_length :: "point3d list \<Rightarrow> real" where
  "compute_length pts =
     fold (\<lambda>i total. total + leg_length (pts ! (i - 1)) (pts ! i)) [1..<length pts] 0"

definition compute_data_bounds :: "('a segment_scheme) list \<Rightarrow> error + data_bounds" where
  "compute_data_bounds segments =
     (let xs = concat (map (\<lambda>seg. map px (points seg)) segments);
          zs = concat (map (\<lambda>seg. map pz (points seg)) segments)
      in bindR (py_min xs) (\<lambda>x0. bindR (py_max xs) (\<lambda>x1.
         bindR (py_min zs) (\<lambda>z0. bindR (py_max zs) (\<lambda>z1.
           Inr \<lparr>xMin = x0, xMax = x1, zMin = z0, zMax = z1\<rparr>)))))"

definition is_near_boundary :: "data_bounds \<Rightarrow> real \<Rightarrow> real \<Rightarrow> bool" where
  "is_near_boundary b x z \<longleftrightarrow>
     x < xMin b + BOUNDARY_BUFFER \<or> xMax b - BOUNDARY_BUFFER < x \<or>
     z < zMin b + BOUNDARY_BUFFER \<or> zMax b - BOUNDARY_BUFFER < z"

subsection \<open>Adjacency\<close>

text \<open>
  \<^verbatim>\<open>seg_map = {s['id']: s for s in segments}\<close>: the dict holds references into the list,
  so it is modelled as the index of the segment an id stands for (the last one with that id).
\<close>

definition seg_map_of :: "('a segment_scheme) list \<Rightarrow> string \<rightharpoonup> nat" where
  "seg_map_of segments =
     fold (\<lambda>i m. m(seg_id (segments ! i) \<mapsto> i)) [0..<length segments] Map.empty"

text \<open>First pass: the headings of the first and the last leg; a polyline of fewer than two
  points has no \<^verbatim>\<open>pts[1]\<close>.\<close>

definition segment_headings :: "'a segment_scheme \<Rightarrow> error + real \<times> real" where
  "segment_headings seg =
     (let pts = points seg
      in if length pts < 2 then Inl IndexError
         else Inr (compute_heading (pts ! 0) (pts ! 1),
                   compute_heading (pts ! (length pts - 2)) (pts ! (length pts - 1))))"

text \<open>Second pass, inner loop: the candidates of one segment, in the order of the end node's
  \<^verbatim>\<open>outgoing\<close> list.\<close>

fun scan_candidates ::
  "(string \<rightharpoonup> nat) \<Rightarrow> (real \<times> real) list \<Rightarrow> string \<Rightarrow> real \<Rightarrow> string list \<Rightarrow> error + string list"
where
  "scan_candidates sm hs sid end_heading [] = Inr []"
| "scan_candidates sm hs sid end_heading (candidate_id # cs) =
     (if candidate_id = sid then scan_candidates sm hs sid end_heading cs
      else case sm candidate_id of
        None \<Rightarrow> Inl KeyError
      | Some k \<Rightarrow>
          bindR (scan_candidates sm hs sid end_heading cs) (\<lambda>rest.
            Inr (if angle_difference end_heading (fst (hs ! k)) \<le> ANGLE_THRESHOLD
                 then candidate_id # rest else rest)))"

definition segment_successors ::
  "(string \<times> road_node) list \<Rightarrow> (string \<rightharpoonup> string) \<Rightarrow> (string \<rightharpoonup> nat) \<Rightarrow>
   (real \<times> real) list \<Rightarrow> string \<times> real \<Rightarrow> error + string list"
where
  "segment_successors nodes end_node_map sm hs = (\<lambda>(sid, end_heading).
     case end_node_map sid of
       None \<Rightarrow> Inl KeyError
     | Some end_node_id \<Rightarrow>
         (case map_of nodes end_node_id of
            None \<Rightarrow> Inl KeyError
          | Some end_node \<Rightarrow> scan_candidates sm hs sid end_heading (outgoing end_node)))"

text \<open>Third pass: every successor link \<open>S \<rightarrow> C\<close> appends \<open>S\<close> to the predecessors of the
  segment \<^verbatim>\<open>seg_map[C]\<close>.\<close>

definition append_predecessor ::
  "(string \<rightharpoonup> nat) \<Rightarrow> string \<Rightarrow> string \<Rightarrow> string list list \<Rightarrow> error + string list list"
where
  "append_predecessor sm sid succ_id preds =
     (case sm succ_id of
        None \<Rightarrow> Inl KeyError
      | Some k \<Rightarrow> Inr (preds[k := preds ! k @ [sid]]))"

definition predecessors_pass ::
  "(string \<rightharpoonup> nat) \<Rightarrow> (string \<times> string list) list \<Rightarrow> error + string list list"
where
  "predecessors_pass sm links =
     foldR (\<lambda>(sid, succs). foldR (append_predecessor sm sid) succs) links
       (replicate (length links) [])"

definition build_adjacency ::
  "segment list \<Rightarrow> (string \<times> road_node) list \<Rightarrow> (string \<rightharpoonup> string) \<Rightarrow>
   (string \<rightharpoonup> string) \<Rightarrow> error + adj_segment list"
where
  "build_adjacency segments nodes start_node_map end_node_map =
     (let sm = seg_map_of segments; ids = map seg_id segments
      in bindR (mapR segment_headings segments) (\<lambda>hs.
         bindR (mapR (segment_successors nodes end_node_map sm hs) (zip ids (map snd hs))) (\<lambda>succs.
         bindR (predecessors_pass sm (zip ids succs)) (\<lambda>preds.
           let total_successors = sum_list (map length succs);
               pred_count = sum_list (map length preds)
           in if pred_count \<noteq> total_successors then Inl AssertionError
              else Inr (map (\<lambda>i. segment.extend (segments ! i)
                     (adj_segment.fields (fst (hs ! i)) (snd (hs ! i)) (succs ! i) (preds ! i)))
                   [0..<length segments])))))"

subsection \<open>Segment classification\<close>

definition augment_segment ::
  "(string \<times> road_node) list \<Rightarrow> (string \<rightharpoonup> string) \<Rightarrow> (string \<rightharpoonup> string) \<Rightarrow>
   adj_segment \<Rightarrow> error + graph_segment"
where
  "augment_segment nodes start_node_map end_node_map seg =
     (case start_node_map (seg_id seg) of
        None \<Rightarrow> Inl KeyError
      | Some start_node_id \<Rightarrow>
     (case end_node_map (seg_id seg) of
        None \<Rightarrow> Inl KeyError
      | Some end_node_id \<Rightarrow>
     bindR (py_div (avgSpeedMph seg) (freeFlowSpeedMph seg)) (\<lambda>speed_ratio.
     let speed_ratio' = max 0.01 (min 1.0 (py_round speed_ratio 3));
         length_meters = py_round (compute_length (points seg)) 2
     in bindR (py_max (spawnRates seg)) (\<lambda>max_spawn.
     let is_major = (SPAWN_RATE_THRESHOLD < max_spawn \<or>
                     SPEED_RATIO_THRESHOLD < speed_ratio' \<or>
                     LENGTH_THRESHOLD < length_meters)
     in case map_of nodes start_node_id of
          None \<Rightarrow> Inl KeyError
        | Some start_node \<Rightarrow>
            let is_entry = (isBoundary start_node \<or> length (predecessors seg) = 0)
            in Inr (adj_segment.extend seg
                 (graph_segment.fields start_node_id end_node_id speed_ratio' length_meters
                    is_major is_entry))))))"

text \<open>The loop, then the two summary lines, which divide by \<^verbatim>\<open>len(segments)\<close>.\<close>

definition augment_segments ::
  "adj_segment list \<Rightarrow> (string \<times> road_node) list \<Rightarrow> (string \<rightharpoonup> string) \<Rightarrow>
   (string \<rightharpoonup> string) \<Rightarrow> error + graph_segment list"
where
  "augment_segments segments nodes start_node_map end_node_map =
     bindR (mapR (augment_segment nodes start_node_map end_node_map) segments) (\<lambda>out.
       if length segments = 0 then Inl ZeroDivisionError else Inr out)"

subsection \<open>Graph version\<close>

fun str_join :: "string \<Rightarrow> string list \<Rightarrow> string" where
  "str_join sep [] = []"
| "str_join sep [s] = s"
| "str_join sep (s # t # ts) = s @ sep @ str_join sep (t # ts)"

definition version_data :: "('a segment_scheme) list \<Rightarrow> string" where
  "version_data segments =
     str_join ''|'' (map (\<lambda>s. seg_id s @ '':'' @ str_nat (length (points s)))
                       (sort_key seg_id segments))"

text \<open>\<^verbatim>\<open>hashlib.md5(data.encode()).hexdigest()\<close> is the library's; it is a parameter here.\<close>

definition compute_graph_version :: "(string \<Rightarrow> string) \<Rightarrow> ('a segment_scheme) list \<Rightarrow> string" where
  "compute_graph_version md5_hexdigest segments = take 12 (md5_hexdigest (version_data segments))"

subsection \<open>Union-find\<close>

record union_find =
  parent :: "string \<rightharpoonup> string"
  rank :: "string \<rightharpoonup> nat"

definition uf_empty :: union_find where
  "uf_empty = \<lparr>parent = Map.empty, rank = Map.empty\<rparr>"

definition make_set :: "string \<Rightarrow> union_find \<Rightarrow> union_find" where
  "make_set x uf =
     (if x \<notin> dom (parent uf) then uf\<lparr>parent := (parent uf)(x \<mapsto> x), rank := (rank uf)(x \<mapsto> 0)\<rparr>
      else uf)"

text \<open>\<^verbatim>\<open>find\<close> recurses along the parent links and compresses the path on the way back. On a
  cyclic \<^verbatim>\<open>parent\<close> dict it would not return: \<open>None\<close>.\<close>

partial_function (option) uf_find :: "union_find \<Rightarrow> string \<Rightarrow> (error + string \<times> union_find) option" where
  "uf_find uf x =
     (case parent uf x of
        None \<Rightarrow> Some (Inl KeyError)
      | Some p \<Rightarrow>
          if p \<noteq> x then
            Option.bind (uf_find uf p) (\<lambda>r.
              case r of
                Inl e \<Rightarrow> Some (Inl e)
              | Inr (rt, uf') \<Rightarrow> Some (Inr (rt, uf'\<lparr>parent := (parent uf')(x \<mapsto> rt)\<rparr>)))
          else Some (Inr (p, uf)))"

text \<open>The body of \<^verbatim>\<open>union\<close> after the two calls of \<^verbatim>\<open>find\<close>.\<close>

definition uf_link :: "union_find \<Rightarrow> string \<Rightarrow> string \<Rightarrow> error + union_find" where
  "uf_link uf rx ry =
     (if rx = ry then Inr uf
      else case rank uf rx of
        None \<Rightarrow> Inl KeyError
      | Some a \<Rightarrow>
          (case rank uf ry of
             None \<Rightarrow> Inl KeyError
           | Some b \<Rightarrow>
               let (rx', ry', a', b') = (if a < b then (ry, rx, b, a) else (rx, ry, a, b));
                   uf' = uf\<lparr>parent := (parent uf)(ry' \<mapsto> rx')\<rparr>
               in Inr (if a' = b' then uf'\<lparr>rank := (rank uf')(rx' \<mapsto> a' + 1)\<rparr> else uf')))"

definition uf_union :: "union_find \<Rightarrow> string \<Rightarrow> string \<Rightarrow> (error + union_find) option" where
  "uf_union uf x y =
     bindE (uf_find uf x) (\<lambda>(rx, uf1).
     bindE (uf_find uf1 y) (\<lambda>(ry, uf2).
       Some (uf_link uf2 rx ry)))"

subsection \<open>Endpoint clustering\<close>

definition segment_endpoints :: "'a segment_scheme \<Rightarrow> error + endpoint list" where
  "segment_endpoints seg =
     (case points seg of
        [] \<Rightarrow> Inl IndexError
      | p # ps \<Rightarrow>
          Inr [\<lparr>ep_x = px p, ep_z = pz p, segment_id = seg_id seg, is_start = True\<rparr>,
               \<lparr>ep_x = px (last (p # ps)), ep_z = pz (last (p # ps)), segment_id = seg_id seg,
                is_start = False\<rparr>])"

definition collect_endpoints :: "('a segment_scheme) list \<Rightarrow> error + endpoint list" where
  "collect_endpoints segments = bindR (mapR segment_endpoints segments) (\<lambda>ess. Inr (concat ess))"

definition merge_pair ::
  "endpoint list \<Rightarrow> string list \<Rightarrow> nat \<Rightarrow> nat \<Rightarrow> union_find \<Rightarrow> (error + union_find) option"
where
  "merge_pair endpoints endpoint_ids i j uf =
     (if distance (endpoints ! i) (endpoints ! j) < SNAP_RADIUS
      then uf_union uf (endpoint_ids ! i) (endpoint_ids ! j)
      else Some (Inr uf))"

definition merge_endpoints ::
  "endpoint list \<Rightarrow> string list \<Rightarrow> union_find \<Rightarrow> (error + union_find) option"
where
  "merge_endpoints endpoints endpoint_ids =
     foldE (\<lambda>i. foldE (merge_pair endpoints endpoint_ids i) [i + 1..<length endpoints])
       [0..<length endpoints]"

text \<open>\<^verbatim>\<open>clusters\<close> is a \<^verbatim>\<open>defaultdict(list)\<close>; its insertion order numbers the nodes, so it is
  an association list.\<close>

definition add_to_cluster ::
  "nat \<times> string \<Rightarrow> union_find \<times> (string \<times> nat list) list \<Rightarrow>
   (error + union_find \<times> (string \<times> nat list) list) option"
where
  "add_to_cluster = (\<lambda>(i, ep_id) (uf, clusters).
     bindE (uf_find uf ep_id) (\<lambda>(rt, uf').
       Some (Inr (uf',
         AList.update rt ((case map_of clusters rt of None \<Rightarrow> [] | Some l \<Rightarrow> l) @ [i])
           clusters))))"

definition group_clusters ::
  "string list \<Rightarrow> union_find \<Rightarrow> (error + union_find \<times> (string \<times> nat list) list) option"
where
  "group_clusters endpoint_ids uf =
     foldE add_to_cluster (zip [0..<length endpoint_ids] endpoint_ids) (uf, [])"

definition assign_endpoint ::
  "string \<Rightarrow> endpoint \<Rightarrow> road_node \<times> (string \<rightharpoonup> string) \<times> (string \<rightharpoonup> string) \<Rightarrow>
   road_node \<times> (string \<rightharpoonup> string) \<times> (string \<rightharpoonup> string)"
where
  "assign_endpoint nid ep = (\<lambda>(node, start_node_map, end_node_map).
     if is_start ep
     then (node\<lparr>outgoing := outgoing node @ [segment_id ep]\<rparr>,
           start_node_map(segment_id ep \<mapsto> nid), end_node_map)
     else (node\<lparr>incoming := incoming node @ [segment_id ep]\<rparr>,
           start_node_map, end_node_map(segment_id ep \<mapsto> nid)))"

definition make_node ::
  "data_bounds \<Rightarrow> endpoint list \<Rightarrow> nat \<times> nat list \<Rightarrow>
   (string \<times> road_node) list \<times> (string \<rightharpoonup> string) \<times> (string \<rightharpoonup> string) \<Rightarrow>
   error + (string \<times> road_node) list \<times> (string \<rightharpoonup> string) \<times> (string \<rightharpoonup> string)"
where
  "make_node b endpoints = (\<lambda>(node_idx, indices) (nodes, start_node_map, end_node_map).
     bindR (py_div (sum_list (map (\<lambda>i. ep_x (endpoints ! i)) indices)) (real (length indices))) (\<lambda>cx.
     bindR (py_div (sum_list (map (\<lambda>i. ep_z (endpoints ! i)) indices)) (real (length indices))) (\<lambda>cz.
       let nid = ''node_'' @ str_nat_04 node_idx;
           node0 = \<lparr>node_id = nid, position = (py_round cx 2, py_round cz 2), outgoing = [],
                    incoming = [], isBoundary = is_near_boundary b cx cz\<rparr>;
           (node, start_node_map', end_node_map') =
             fold (assign_endpoint nid) (map (\<lambda>i. endpoints ! i) indices)
               (node0, start_node_map, end_node_map)
       in Inr (AList.update nid node nodes, start_node_map', end_node_map'))))"

definition build_nodes ::
  "data_bounds \<Rightarrow> endpoint list \<Rightarrow> (string \<times> nat list) list \<Rightarrow>
   error + (string \<times> road_node) list \<times> (string \<rightharpoonup> string) \<times> (string \<rightharpoonup> string)"
where
  "build_nodes b endpoints clusters =
     foldR (make_node b endpoints) (zip [0..<length clusters] (map snd clusters))
       ([], Map.empty, Map.empty)"

definition build_node_set ::
  "data_bounds \<Rightarrow> ('a segment_scheme) list \<Rightarrow>
   (error + (string \<times> road_node) list \<times> (string \<rightharpoonup> string) \<times> (string \<rightharpoonup> string)) option"
where
  "build_node_set b segments =
     bindE (Some (collect_endpoints segments)) (\<lambda>endpoints.
       let endpoint_ids = map str_nat [0..<length endpoints];
           uf = fold make_set endpoint_ids uf_empty
       in bindE (merge_endpoints endpoints endpoint_ids uf) (\<lambda>uf1.
          bindE (group_clusters endpoint_ids uf1) (\<lambda>(uf2, clusters).
            Some (build_nodes b endpoints clusters))))"

subsection \<open>The augmentation pipeline\<close>

record graph_output =
  out_segments :: "graph_segment list"
  out_nodes :: "(string \<times> road_node) list"
  majorSegmentCount :: nat
  entryPointCount :: nat
  totalSuccessorLinks :: nat
  graphVersion :: string
  nodeCount :: nat

text \<open>\<^verbatim>\<open>main\<close> of the augmentation script, from the loaded segment list to what it writes.\<close>

definition augment_main :: "(string \<Rightarrow> string) \<Rightarrow> segment list \<Rightarrow> (error + graph_output) option" where
  "augment_main md5_hexdigest segments =
     bindE (Some (compute_data_bounds segments)) (\<lambda>b.
     bindE (build_node_set b segments) (\<lambda>(nodes, start_node_map, end_node_map).
     bindE (Some (build_adjacency segments nodes start_node_map end_node_map)) (\<lambda>adj.
     bindE (Some (augment_segments adj nodes start_node_map end_node_map)) (\<lambda>graph.
       Some (Inr \<lparr>out_segments = graph, out_nodes = nodes,
                  majorSegmentCount = length (filter isMajor graph),
                  entryPointCount = length (filter isEntry graph),
                  totalSuccessorLinks = sum_list (map (\<lambda>s. length (successors s)) graph),
                  graphVersion = compute_graph_version md5_hexdigest graph,
                  nodeCount = length nodes\<rparr>)))))"

subsection \<open>The validator\<close>

text \<open>The validator reads the two JSON files back; it reads every derived key with
  \<^verbatim>\<open>.get(key, default)\<close>, so those keys are optional here.\<close>

record v_segment =
  v_id :: string
  v_successors :: "string list option"
  v_predecessors :: "string list option"
  v_isEntry :: "bool option"
  v_isMajor :: "bool option"
  v_endNodeId :: "string option"

record v_node =
  vn_id :: string
  vn_isBoundary :: "bool option"

definition get_list :: "string list option \<Rightarrow> string list" where
  "get_list v = (case v of None \<Rightarrow> [] | Some l \<Rightarrow> l)"

definition get_flag :: "bool option \<Rightarrow> bool" where
  "get_flag v = (case v of None \<Rightarrow> False | Some f \<Rightarrow> f)"

text \<open>\<^verbatim>\<open>{s['id']: s for s in xs}\<close>: a later record replaces an earlier one in place.\<close>

definition dict_of :: "('a \<Rightarrow> string) \<Rightarrow> 'a list \<Rightarrow> (string \<times> 'a) list" where
  "dict_of key xs = fold (\<lambda>s d. AList.update (key s) s d) xs []"

definition LARGEST_COMPONENT_THRESHOLD :: real where "LARGEST_COMPONENT_THRESHOLD = 0.90"
definition INTERIOR_DEAD_END_THRESHOLD :: real where "INTERIOR_DEAD_END_THRESHOLD = 0.05"
definition ENTRY_REACHABILITY_THRESHOLD :: real where "ENTRY_REACHABILITY_THRESHOLD = 0.85"

function bfs_component ::
  "(string \<times> v_segment) list \<Rightarrow> string list \<Rightarrow> string set \<Rightarrow> string set \<Rightarrow>
   error + string set \<times> string set"
where
  "bfs_component segments [] visited component = Inr (visited, component)"
| "bfs_component segments (current_id # queue) visited component =
     (if current_id \<in> visited then bfs_component segments queue visited component
      else case map_of segments current_id of
             None \<Rightarrow> Inl KeyError
           | Some seg \<Rightarrow>
               let visited' = insert current_id visited;
                   queue1 = queue @ filter (\<lambda>succ_id. succ_id \<notin> visited' \<and> succ_id \<in> fst ` set segments)
                                      (get_list (v_successors seg));
                   queue2 = queue1 @ filter (\<lambda>pred_id. pred_id \<notin> visited' \<and> pred_id \<in> fst ` set segments)
                                      (get_list (v_predecessors seg))
               in bfs_component segments queue2 visited' (insert current_id component))"
  by pat_completeness auto
termination
proof (relation "measures [\<lambda>(segments, queue, visited, component). card (fst ` set segments - visited),
                           \<lambda>(segments, queue, visited, component). length queue]", goal_cases)
  case 1
  show ?case by simp
next
  case 2
  show ?case by simp
next
  case (3 segments current_id queue visited component seg visited' queue1 queue2)
  have "current_id \<in> fst ` set segments"
    using 3(2) by (metis fst_conv image_eqI map_of_SomeD)
  then have "fst ` set segments - insert current_id visited \<subset> fst ` set segments - visited"
    using 3(1) by auto
  then have "card (fst ` set segments - insert current_id visited) < card (fst ` set segments - visited)"
    by (intro psubset_card_mono) auto
  then show ?case using 3 by simp
qed

fun components_loop ::
  "(string \<times> v_segment) list \<Rightarrow> string list \<Rightarrow> string set \<Rightarrow> string set list \<Rightarrow>
   error + string set list"
where
  "components_loop segments [] visited components = Inr components"
| "components_loop segments (sid # rest) visited components =
     (if sid \<in> visited then components_loop segments rest visited components
      else bindR (bfs_component segments [sid] visited {}) (\<lambda>(visited', component).
             components_loop segments rest visited' (components @ [component])))"

text \<open>\<^verbatim>\<open>components.sort(key=len, reverse=True)\<close>: a stable sort, largest first.\<close>

definition find_connected_components :: "(string \<times> v_segment) list \<Rightarrow> error + string set list" where
  "find_connected_components segments =
     bindR (components_loop segments (map fst segments) {} []) (\<lambda>components.
       Inr (rev (sort_key card (rev components))))"

function bfs_reachable :: "(string \<times> v_segment) list \<Rightarrow> string list \<Rightarrow> string set \<Rightarrow> string set" where
  "bfs_reachable segments [] reachable = reachable"
| "bfs_reachable segments (current_id # queue) reachable =
     (if current_id \<in> reachable then bfs_reachable segments queue reachable
      else let reachable' = insert current_id reachable
           in case map_of segments current_id of
                None \<Rightarrow> bfs_reachable segments queue reachable'
              | Some seg \<Rightarrow>
                  bfs_reachable segments
                    (queue @ filter (\<lambda>succ_id. succ_id \<notin> reachable' \<and> succ_id \<in> fst ` set segments)
                               (get_list (v_successors seg)))
                    reachable')"
  by pat_completeness auto
termination
proof (relation "measures [\<lambda>(segments, queue, reachable). card (fst ` set segments - reachable),
                           \<lambda>(segments, queue, reachable). length queue]", goal_cases)
  case 1
  show ?case by simp
next
  case 2
  show ?case by simp
next
  case (3 segments current_id queue reachable reachable')
  have "card (fst ` set segments - insert current_id reachable) \<le> card (fst ` set segments - reachable)"
    by (intro card_mono) auto
  then show ?case using 3 by auto
next
  case (4 segments current_id queue reachable reachable' seg)
  have "current_id \<in> fst ` set segments"
    using 4(3) by (metis fst_conv image_eqI map_of_SomeD)
  then have "fst ` set segments - insert current_id reachable \<subset> fst ` set segments - reachable"
    using 4(1) by auto
  then have "card (fst ` set segments - insert current_id reachable) < card (fst ` set segments - reachable)"
    by (intro psubset_card_mono) auto
  then show ?case using 4 by simp
qed

definition find_reachable_from_entries :: "(string \<times> v_segment) list \<Rightarrow> string set" where
  "find_reachable_from_entries segments =
     (let entry_segments = map fst (filter (\<lambda>(sid, seg). get_flag (v_isEntry seg)) segments)
      in bfs_reachable segments entry_segments {})"

text \<open>\<^verbatim>\<open>nodes.get(end_node_id, {}).get('isBoundary', False)\<close>\<close>

definition end_node_is_boundary :: "(string \<times> v_node) list \<Rightarrow> v_segment \<Rightarrow> bool" where
  "end_node_is_boundary nodes seg =
     (case v_endNodeId seg of
        None \<Rightarrow> False
      | Some end_node_id \<Rightarrow>
          (case map_of nodes end_node_id of
             None \<Rightarrow> False
           | Some end_node \<Rightarrow> get_flag (vn_isBoundary end_node)))"

definition count_dead_ends :: "(string \<times> v_segment) list \<Rightarrow> (string \<times> v_node) list \<Rightarrow> nat \<times> nat" where
  "count_dead_ends segments nodes =
     fold (\<lambda>(sid, seg) (interior_dead_ends, boundary_dead_ends).
             if length (get_list (v_successors seg)) = 0
             then (if end_node_is_boundary nodes seg
                   then (interior_dead_ends, boundary_dead_ends + 1)
                   else (interior_dead_ends + 1, boundary_dead_ends))
             else (interior_dead_ends, boundary_dead_ends))
       segments (0, 0)"

text \<open>\<^verbatim>\<open>a / len(segments) if segments else 0\<close>\<close>

definition guarded_fraction :: "nat \<Rightarrow> (string \<times> v_segment) list \<Rightarrow> error + real" where
  "guarded_fraction a segments =
     (if segments \<noteq> [] then py_div (real a) (real (length segments)) else Inr 0)"

record graph_statistics =
  st_avgSuccessors :: real
  st_avgPredecessors :: real
  st_entryPointCount :: nat
  st_majorSegmentCount :: nat

definition compute_statistics :: "(string \<times> v_segment) list \<Rightarrow> error + graph_statistics" where
  "compute_statistics segments =
     (let total_successors = sum_list (map (\<lambda>(sid, s). length (get_list (v_successors s))) segments);
          total_predecessors = sum_list (map (\<lambda>(sid, s). length (get_list (v_predecessors s))) segments);
          entry_count = length (filter (\<lambda>(sid, s). get_flag (v_isEntry s)) segments);
          major_count = length (filter (\<lambda>(sid, s). get_flag (v_isMajor s)) segments)
      in bindR (guarded_fraction total_successors segments) (\<lambda>avg_succ.
         bindR (guarded_fraction total_predecessors segments) (\<lambda>avg_pred.
           Inr \<lparr>st_avgSuccessors = avg_succ, st_avgPredecessors = avg_pred,
                st_entryPointCount = entry_count, st_majorSegmentCount = major_count\<rparr>)))"

text \<open>A failure message, with the fraction it prints.\<close>

datatype failure =
  LargestComponentFailure real
| InteriorDeadEndFailure real
| EntryReachabilityFailure real

record validation_report =
  totalSegments :: nat
  totalNodes :: nat
  componentCount :: nat
  largestComponentSize :: nat
  largestComponentPct :: real
  reachableFromEntries :: nat
  reachableFromEntriesPct :: real
  interiorDeadEnds :: nat
  interiorDeadEndPct :: real
  boundaryDeadEnds :: nat
  rp_entryPointCount :: nat
  rp_majorSegmentCount :: nat
  avgSuccessors :: real
  avgPredecessors :: real
  passed :: bool
  failures :: "failure list"

text \<open>The three fractions of \<^verbatim>\<open>validate_graph\<close>, as it computes them before the thresholds.\<close>

definition largest_component_fraction :: "(string \<times> v_segment) list \<Rightarrow> error + real" where
  "largest_component_fraction segments =
     bindR (find_connected_components segments) (\<lambda>components.
       guarded_fraction (case components of [] \<Rightarrow> 0 | c # cs \<Rightarrow> card c) segments)"

definition reachable_fraction :: "(string \<times> v_segment) list \<Rightarrow> error + real" where
  "reachable_fraction segments =
     guarded_fraction (card (find_reachable_from_entries segments)) segments"

definition interior_dead_fraction ::
  "(string \<times> v_segment) list \<Rightarrow> (string \<times> v_node) list \<Rightarrow> error + real"
where
  "interior_dead_fraction segments nodes =
     guarded_fraction (fst (count_dead_ends segments nodes)) segments"

definition check_thresholds :: "real \<Rightarrow> real \<Rightarrow> real \<Rightarrow> failure list" where
  "check_thresholds largest_pct interior_dead_pct reachable_pct =
     (if largest_pct < LARGEST_COMPONENT_THRESHOLD then [LargestComponentFailure largest_pct] else []) @
     (if INTERIOR_DEAD_END_THRESHOLD < interior_dead_pct then [InteriorDeadEndFailure interior_dead_pct] else []) @
     (if reachable_pct < ENTRY_REACHABILITY_THRESHOLD then [EntryReachabilityFailure reachable_pct] else [])"

definition validate_graph :: "v_segment list \<Rightarrow> v_node list \<Rightarrow> error + validation_report" where
  "validate_graph graph_segments node_list =
     (let segments = dict_of v_id graph_segments;
          nodes = dict_of vn_id node_list
      in bindR (find_connected_components segments) (\<lambda>components.
         let largest_size = (case components of [] \<Rightarrow> 0 | c # cs \<Rightarrow> card c)
         in bindR (largest_component_fraction segments) (\<lambda>largest_pct.
         let reachable = find_reachable_from_entries segments
         in bindR (reachable_fraction segments) (\<lambda>reachable_pct.
         let (interior_dead, boundary_dead) = count_dead_ends segments nodes
         in bindR (interior_dead_fraction segments nodes) (\<lambda>interior_dead_pct.
            bindR (compute_statistics segments) (\<lambda>stats.
         let failures = check_thresholds largest_pct interior_dead_pct reachable_pct;
             passed = (length failures = 0)
         in Inr \<lparr>totalSegments = length segments,
                 totalNodes = length nodes,
                 componentCount = length components,
                 largestComponentSize = largest_size,
                 largestComponentPct = py_round (largest_pct * 100) 2,
                 reachableFromEntries = card reachable,
                 reachableFromEntriesPct = py_round (reachable_pct * 100) 2,
                 interiorDeadEnds = interior_dead,
                 interiorDeadEndPct = py_round (interior_dead_pct * 100) 2,
                 boundaryDeadEnds = boundary_dead,
                 rp_entryPointCount = st_entryPointCount stats,
                 rp_majorSegmentCount = st_majorSegmentCount stats,
                 avgSuccessors = py_round (st_avgSuccessors stats) 2,
                 avgPredecessors = py_round (st_avgPredecessors stats) 2,
                 passed = passed,
                 failures = failures\<rparr>))))))"

text \<open>\<^verbatim>\<open>main\<close> of the validator: the report it writes and the status it hands to
  \<^verbatim>\<open>sys.exit\<close>.\<close>

definition validator_main :: "v_segment list \<Rightarrow> v_node list \<Rightarrow> error + validation_report \<times> int" where
  "validator_main graph_segments node_list =
     bindR (validate_graph graph_segments node_list) (\<lambda>report.
       Inr (report, if passed report then 0 else 1))"

subsection \<open>Auxiliary predicates and worked examples\<close>

text \<open>Every successor id resolves to a segment index below \<open>n\<close>.\<close>

definition links_ok :: "(string \<rightharpoonup> nat) \<Rightarrow> nat \<Rightarrow> string list \<Rightarrow> bool" where
  "links_ok sm n succs \<longleftrightarrow> (\<forall>c\<in>set succs. \<exists>k. sm c = Some k \<and> k < n)"

text \<open>Three segments meeting at one node: \<open>a\<close> arrives heading north, \<open>b\<close> leaves at
  exactly 60 degrees, \<open>c\<close> leaves at 90 degrees.\<close>

definition ex_a :: segment where
  "ex_a = \<lparr>seg_id = ''a'', points = [(0, 0, 10), (0, 0, 0)], avgSpeedMph = 10,
           freeFlowSpeedMph = 20, spawnRates = [0.05]\<rparr>"
definition ex_b :: segment where
  "ex_b = \<lparr>seg_id = ''b'', points = [(0, 0, 0), (sqrt 3, 0, - 1)], avgSpeedMph = 10,
           freeFlowSpeedMph = 20, spawnRates = [0.05]\<rparr>"
definition ex_c :: segment where
  "ex_c = \<lparr>seg_id = ''c'', points = [(0, 0, 0), (10, 0, 0)], avgSpeedMph = 10,
           freeFlowSpeedMph = 20, spawnRates = [0.05]\<rparr>"

definition ex_nodes :: "(string \<times> road_node) list" where
  "ex_nodes =
     [(''node_0000'', \<lparr>node_id = ''node_0000'', position = (0, 10), outgoing = [''a''], incoming = [], isBoundary = True\<rparr>),
      (''node_0001'', \<lparr>node_id = ''node_0001'', position = (0, 0), outgoing = [''b'', ''c''], incoming = [''a''], isBoundary = False\<rparr>),
      (''node_0002'', \<lparr>node_id = ''node_0002'', position = (1.73, - 1), outgoing = [], incoming = [''b''], isBoundary = True\<rparr>),
      (''node_0003'', \<lparr>node_id = ''node_0003'', position = (10, 0), outgoing = [], incoming = [''c''], isBoundary = True\<rparr>)]"

definition ex_start_map :: "string \<rightharpoonup> string" where
  "ex_start_map = [''a'' \<mapsto> ''node_0000'', ''b'' \<mapsto> ''node_0001'', ''c'' \<mapsto> ''node_0001'']"
definition ex_end_map :: "string \<rightharpoonup> string" where
  "ex_end_map = [''a'' \<mapsto> ''node_0001'', ''b'' \<mapsto> ''node_0002'', ''c'' \<mapsto> ''node_0003'']"

definition ex_adj :: "adj_segment list" where
  "ex_adj =
     [segment.extend ex_a (adj_segment.fields 0 0 [''b''] []),
      segment.extend ex_b (adj_segment.fields 60 60 [] [''a'']),
      segment.extend ex_c (adj_segment.fields 90 90 [] [])]"

text \<open>A slow, quiet segment of 200 metres.\<close>

definition ex_long :: adj_segment where
  "ex_long = segment.extend
     \<lparr>seg_id = ''m'', points = [(0, 0, 0), (200, 0, 0)], avgSpeedMph = 3, freeFlowSpeedMph = 30,
      spawnRates = [0.05, 0.01]\<rparr>
     (adj_segment.fields 90 90 [] [''p''])"

definition ex_long_nodes :: "(string \<times> road_node) list" where
  "ex_long_nodes =
     [(''node_0000'', \<lparr>node_id = ''node_0000'', position = (0, 0), outgoing = [''m''], incoming = [''p''], isBoundary = False\<rparr>),
      (''node_0001'', \<lparr>node_id = ''node_0001'', position = (200, 0), outgoing = [], incoming = [''m''], isBoundary = False\<rparr>)]"

definition ex_long_graph :: graph_segment where
  "ex_long_graph = adj_segment.extend ex_long
     (graph_segment.fields ''node_0000'' ''node_0001'' 0.1 200 True False)"

text \<open>The representative a chain of parent links leads to, and the invariant that
  union by rank keeps: ranks grow strictly along every link.\<close>

inductive rep_of :: "(string \<rightharpoonup> string) \<Rightarrow> string \<Rightarrow> string \<Rightarrow> bool" for par where
  rep_root: "par x = Some x \<Longrightarrow> rep_of par x x"
| rep_step: "par x = Some p \<Longrightarrow> p \<noteq> x \<Longrightarrow> rep_of par p r \<Longrightarrow> rep_of par x r"

definition same_set :: "(string \<rightharpoonup> string) \<Rightarrow> string \<Rightarrow> string \<Rightarrow> bool" where
  "same_set par x y \<longleftrightarrow> (\<exists>r. rep_of par x r \<and> rep_of par y r)"

definition uf_inv :: "union_find \<Rightarrow> bool" where
  "uf_inv uf \<longleftrightarrow>
     finite (dom (parent uf)) \<and> dom (rank uf) = dom (parent uf) \<and>
     (\<forall>x p. parent uf x = Some p \<longrightarrow> p \<in> dom (parent uf)) \<and>
     (\<forall>x p. parent uf x = Some p \<longrightarrow> p \<noteq> x \<longrightarrow> the (rank uf x) < the (rank uf p))"

text \<open>The pairs the merge loop has dealt with so far.\<close>

definition merged_upto :: "endpoint list \<Rightarrow> string list \<Rightarrow> (nat \<times> nat) set \<Rightarrow> union_find \<Rightarrow> bool" where
  "merged_upto eps ids pairs uf \<longleftrightarrow>
     uf_inv uf \<and> dom (parent uf) = set ids \<and>
     (\<forall>(i, j)\<in>pairs. distance (eps ! i) (eps ! j) < SNAP_RADIUS \<longrightarrow>
          same_set (parent uf) (ids ! i) (ids ! j))"

text \<open>What the grouping loop has built from the endpoints seen so far: one entry per
  representative, holding the indices it represents in increasing order.\<close>

definition clusters_of :: "(string \<rightharpoonup> string) \<Rightarrow> (nat \<times> string) list \<Rightarrow> (string \<times> nat list) list \<Rightarrow> bool" where
  "clusters_of par ys cl \<longleftrightarrow>
     distinct (map fst cl) \<and>
     (\<forall>r. map_of cl r =
        (let l = map fst (filter (\<lambda>(i, x). rep_of par x r) ys) in if l = [] then None else Some l))"

text \<open>Reading a decimal string back, to tell node names apart.\<close>

definition digit_val :: "char \<Rightarrow> nat" where
  "digit_val c = length (takeWhile (\<lambda>d. d \<noteq> c) ''0123456789'')"

definition decimal_val :: "string \<Rightarrow> nat" where
  "decimal_val s = foldl (\<lambda>a c. 10 * a + digit_val c) 0 s"

definition node_name :: "nat \<Rightarrow> string" where
  "node_name node_idx = ''node_'' @ str_nat_04 node_idx"

text \<open>The node that \<^verbatim>\<open>build_node_set\<close> makes of one cluster, and the node an endpoint was
  assigned to, as the two returned maps record it.\<close>

definition cluster_node :: "data_bounds \<Rightarrow> endpoint list \<Rightarrow> nat \<Rightarrow> nat list \<Rightarrow> road_node" where
  "cluster_node b eps c l =
     (let cx = sum_list (map (\<lambda>i. ep_x (eps ! i)) l) / real (length l);
          cz = sum_list (map (\<lambda>i. ep_z (eps ! i)) l) / real (length l)
      in \<lparr>node_id = node_name c, position = (py_round cx 2, py_round cz 2),
          outgoing = map segment_id (filter is_start (map (\<lambda>i. eps ! i) l)),
          incoming = map segment_id (filter (\<lambda>e. \<not> is_start e) (map (\<lambda>i. eps ! i) l)),
          isBoundary = is_near_boundary b cx cz\<rparr>)"

definition endpoint_node :: "(string \<rightharpoonup> string) \<Rightarrow> (string \<rightharpoonup> string) \<Rightarrow> endpoint \<Rightarrow> string option" where
  "endpoint_node start_node_map end_node_map ep =
     (if is_start ep then start_node_map (segment_id ep) else end_node_map (segment_id ep))"

text \<open>A fork with candidates at 60, 60.01 and 300 degrees.\<close>

definition ex_theta :: real where
  "ex_theta = 6001 * pi / 18000"

definition ex_d :: segment where
  "ex_d = \<lparr>seg_id = ''d'', points = [(0, 0, 0), (sin ex_theta, 0, - cos ex_theta)], avgSpeedMph = 10,
           freeFlowSpeedMph = 20, spawnRates = [0.05]\<rparr>"
definition ex_w :: segment where
  "ex_w = \<lparr>seg_id = ''w'', points = [(0, 0, 0), (- sqrt 3, 0, - 1)], avgSpeedMph = 10,
           freeFlowSpeedMph = 20, spawnRates = [0.05]\<rparr>"

definition ex_fork_nodes :: "(string \<times> road_node) list" where
  "ex_fork_nodes =
     [(''node_0000'', \<lparr>node_id = ''node_0000'', position = (0, 10), outgoing = [''a''], incoming = [], isBoundary = True\<rparr>),
      (''node_0001'', \<lparr>node_id = ''node_0001'', position = (0, 0), outgoing = [''b'', ''d'', ''w''], incoming = [''a''], isBoundary = False\<rparr>),
      (''node_0002'', \<lparr>node_id = ''node_0002'', position = (1.73, - 1), outgoing = [], incoming = [''b''], isBoundary = True\<rparr>),
      (''node_0003'', \<lparr>node_id = ''node_0003'', position = (0.87, - 0.5), outgoing = [], incoming = [''d''], isBoundary = True\<rparr>),
      (''node_0004'', \<lparr>node_id = ''node_0004'', position = (- 1.73, - 1), outgoing = [], incoming = [''w''], isBoundary = True\<rparr>)]"

definition ex_fork_start_map :: "string \<rightharpoonup> string" where
  "ex_fork_start_map = [''a'' \<mapsto> ''node_0000'', ''b'' \<mapsto> ''node_0001'', ''d'' \<mapsto> ''node_0001'',
                        ''w'' \<mapsto> ''node_0001'']"
definition ex_fork_end_map :: "string \<rightharpoonup> string" where
  "ex_fork_end_map = [''a'' \<mapsto> ''node_0001'', ''b'' \<mapsto> ''node_0002'', ''d'' \<mapsto> ''node_0003'',
                      ''w'' \<mapsto> ''node_0004'']"

definition ex_fork_adj :: "adj_segment list" where
  "ex_fork_adj =
     [segment.extend ex_a (adj_segment.fields 0 0 [''b'', ''w''] []),
      segment.extend ex_b (adj_segment.fields 60 60 [] [''a'']),
      segment.extend ex_d (adj_segment.fields 60.01 60.01 [] []),
      segment.extend ex_w (adj_segment.fields 300 300 [] [''a''])]"

definition ex_chain :: "segment list" where
  "ex_chain =
     [\<lparr>seg_id = ''sa'', points = [(0, 0, 0), (0, 0, 100)], avgSpeedMph = 10, freeFlowSpeedMph = 20,
       spawnRates = [0.05]\<rparr>,
      \<lparr>seg_id = ''sb'', points = [(5, 0, 0), (100, 0, 100)], avgSpeedMph = 10, freeFlowSpeedMph = 20,
       spawnRates = [0.05]\<rparr>,
      \<lparr>seg_id = ''sc'', points = [(14, 0, 0), (200, 0, 0)], avgSpeedMph = 10, freeFlowSpeedMph = 20,
       spawnRates = [0.05]\<rparr>]"

definition ex_chain_endpoints :: "endpoint list" where
  "ex_chain_endpoints =
     [\<lparr>ep_x = 0, ep_z = 0, segment_id = ''sa'', is_start = True\<rparr>,
      \<lparr>ep_x = 0, ep_z = 100, segment_id = ''sa'', is_start = False\<rparr>,
      \<lparr>ep_x = 5, ep_z = 0, segment_id = ''sb'', is_start = True\<rparr>,
      \<lparr>ep_x = 100, ep_z = 100, segment_id = ''sb'', is_start = False\<rparr>,
      \<lparr>ep_x = 14, ep_z = 0, segment_id = ''sc'', is_start = True\<rparr>,
      \<lparr>ep_x = 200, ep_z = 0, segment_id = ''sc'', is_start = False\<rparr>]"

definition ex_single :: segment where
  "ex_single = \<lparr>seg_id = ''p'', points = [(3, 0, 4)], avgSpeedMph = 10, freeFlowSpeedMph = 20,
                spawnRates = [0.05]\<rparr>"

definition ex_pointless :: segment where
  "ex_pointless = \<lparr>seg_id = ''q'', points = [], avgSpeedMph = 10, freeFlowSpeedMph = 20,
                   spawnRates = [0.05]\<rparr>"

definition centroid :: "endpoint list \<Rightarrow> nat list \<Rightarrow> real \<times> real" where
  "centroid eps l =
     (sum_list (map (\<lambda>i. ep_x (eps ! i)) l) / real (length l),
      sum_list (map (\<lambda>i. ep_z (eps ! i)) l) / real (length l))"

definition ex_ring_in :: segment where
  "ex_ring_in = \<lparr>seg_id = ''r'', points = [(49.996, 0, 500), (0, 0, 0), (1000, 0, 1000), (49.996, 0, 500)],
                 avgSpeedMph = 10, freeFlowSpeedMph = 20, spawnRates = [0.05]\<rparr>"

definition ex_ring_out :: segment where
  "ex_ring_out = \<lparr>seg_id = ''r'', points = [(50.004, 0, 500), (0, 0, 0), (1000, 0, 1000), (50.004, 0, 500)],
                  avgSpeedMph = 10, freeFlowSpeedMph = 20, spawnRates = [0.05]\<rparr>"

definition ex_ring_bounds :: data_bounds where
  "ex_ring_bounds = \<lparr>xMin = 0, xMax = 1000, zMin = 0, zMax = 1000\<rparr>"

definition id_count :: "'a segment_scheme \<Rightarrow> string \<times> nat" where
  "id_count s = (seg_id s, length (points s))"

definition ex_counted :: "nat \<Rightarrow> segment" where
  "ex_counted n = \<lparr>seg_id = ''s'', points = replicate n (0, 0, 0), avgSpeedMph = 10,
                    freeFlowSpeedMph = 20, spawnRates = [0.05]\<rparr>"

subsection \<open>The md5 digest\<close>

unbundle bit_operations_syntax

text \<open>The digest function that the script passes its string to is the library's
  \<^verbatim>\<open>hashlib.md5\<close>. It is modelled after RFC 1321, on 32-bit words held as natural numbers. Each
  of the four rounds has sixteen steps; a step is given by its additive constant, its rotation
  and the index of the message word it reads.\<close>

definition word32 :: "nat \<Rightarrow> nat" where
  "word32 x = x mod 4294967296"

definition rotate_left32 :: "nat \<Rightarrow> nat \<Rightarrow> nat" where
  "rotate_left32 x s = word32 (x * 2 ^ s) + x div 2 ^ (32 - s)"

definition not32 :: "nat \<Rightarrow> nat" where
  "not32 x = 4294967295 - x"

definition md5_round1 :: "(nat \<times> nat \<times> nat) list" where
  "md5_round1 =
     [(3614090360, 7, 0), (3905402710, 12, 1), (606105819, 17, 2), (3250441966, 22, 3),
      (4118548399, 7, 4), (1200080426, 12, 5), (2821735955, 17, 6), (4249261313, 22, 7),
      (1770035416, 7, 8), (2336552879, 12, 9), (4294925233, 17, 10), (2304563134, 22, 11),
      (1804603682, 7, 12), (4254626195, 12, 13), (2792965006, 17, 14), (1236535329, 22, 15)]"

definition md5_round2 :: "(nat \<times> nat \<times> nat) list" where
  "md5_round2 =
     [(4129170786, 5, 1), (3225465664, 9, 6), (643717713, 14, 11), (3921069994, 20, 0),
      (3593408605, 5, 5), (38016083, 9, 10), (3634488961, 14, 15), (3889429448, 20, 4),
      (568446438, 5, 9), (3275163606, 9, 14), (4107603335, 14, 3), (1163531501, 20, 8),
      (2850285829, 5, 13), (4243563512, 9, 2), (1735328473, 14, 7), (2368359562, 20, 12)]"

definition md5_round3 :: "(nat \<times> nat \<times> nat) list" where
  "md5_round3 =
     [(4294588738, 4, 5), (2272392833, 11, 8), (1839030562, 16, 11), (4259657740, 23, 14),
      (2763975236, 4, 1), (1272893353, 11, 4), (4139469664, 16, 7), (3200236656, 23, 10),
      (681279174, 4, 13), (3936430074, 11, 0), (3572445317, 16, 3), (76029189, 23, 6),
      (3654602809, 4, 9), (3873151461, 11, 12), (530742520, 16, 15), (3299628645, 23, 2)]"

definition md5_round4 :: "(nat \<times> nat \<times> nat) list" where
  "md5_round4 =
     [(4096336452, 6, 0), (1126891415, 10, 7), (2878612391, 15, 14), (4237533241, 21, 5),
      (1700485571, 6, 12), (2399980690, 10, 3), (4293915773, 15, 10), (2240044497, 21, 1),
      (1873313359, 6, 8), (4264355552, 10, 15), (2734768916, 15, 6), (1309151649, 21, 13),
      (4149444226, 6, 4), (3174756917, 10, 11), (718787259, 15, 2), (3951481745, 21, 9)]"

fun md5_step ::
  "(nat \<Rightarrow> nat \<Rightarrow> nat \<Rightarrow> nat) \<Rightarrow> nat list \<Rightarrow> nat \<times> nat \<times> nat \<Rightarrow>
   nat \<times> nat \<times> nat \<times> nat \<Rightarrow> nat \<times> nat \<times> nat \<times> nat"
where
  "md5_step f m (k, s, g) (a, b, c, d) =
     (d, word32 (b + rotate_left32 (word32 (f b c d + a + k + m ! g)) s), b, c)"

definition md5_f :: "nat \<Rightarrow> nat \<Rightarrow> nat \<Rightarrow> nat" where
  "md5_f b c d = (b AND c) OR (not32 b AND d)"

definition md5_g :: "nat \<Rightarrow> nat \<Rightarrow> nat \<Rightarrow> nat" where
  "md5_g b c d = (d AND b) OR (not32 d AND c)"

definition md5_h :: "nat \<Rightarrow> nat \<Rightarrow> nat \<Rightarrow> nat" where
  "md5_h b c d = b XOR c XOR d"

definition md5_i :: "nat \<Rightarrow> nat \<Rightarrow> nat \<Rightarrow> nat" where
  "md5_i b c d = c XOR (b OR not32 d)"

fun add_words :: "nat \<times> nat \<times> nat \<times> nat \<Rightarrow> nat \<times> nat \<times> nat \<times> nat \<Rightarrow> nat \<times> nat \<times> nat \<times> nat" where
  "add_words (a0, b0, c0, d0) (a, b, c, d) =
     (word32 (a0 + a), word32 (b0 + b), word32 (c0 + c), word32 (d0 + d))"

definition md5_block :: "nat list \<Rightarrow> nat \<times> nat \<times> nat \<times> nat \<Rightarrow> nat \<times> nat \<times> nat \<times> nat" where
  "md5_block m state =
     add_words state
       (fold (md5_step md5_i m) md5_round4
         (fold (md5_step md5_h m) md5_round3
           (fold (md5_step md5_g m) md5_round2
             (fold (md5_step md5_f m) md5_round1 state))))"

text \<open>Bytes to little-endian words and back.\<close>

fun le_words :: "nat list \<Rightarrow> nat list" where
  "le_words (b0 # b1 # b2 # b3 # bs) = (b0 + 256 * (b1 + 256 * (b2 + 256 * b3))) # le_words bs"
| "le_words bs = []"

definition le_bytes4 :: "nat \<Rightarrow> nat list" where
  "le_bytes4 x = [x mod 256, x div 256 mod 256, x div 65536 mod 256, x div 16777216 mod 256]"

fun blocks_of :: "nat \<Rightarrow> nat list \<Rightarrow> nat list list" where
  "blocks_of 0 ws = []"
| "blocks_of (Suc n) ws = take 16 ws # blocks_of n (drop 16 ws)"

definition md5_pad :: "nat list \<Rightarrow> nat list" where
  "md5_pad bytes =
     bytes @ [128] @ replicate ((119 - length bytes mod 64) mod 64) 0 @
     le_bytes4 (word32 (8 * length bytes)) @ le_bytes4 (word32 (8 * length bytes div 4294967296))"

fun digest_bytes :: "nat \<times> nat \<times> nat \<times> nat \<Rightarrow> nat list" where
  "digest_bytes (a, b, c, d) = le_bytes4 a @ le_bytes4 b @ le_bytes4 c @ le_bytes4 d"

definition md5_digest :: "nat list \<Rightarrow> nat list" where
  "md5_digest bytes =
     (let padded = md5_pad bytes;
          blocks = blocks_of (length padded div 64) (le_words padded)
      in digest_bytes (fold md5_block blocks (1732584193, 4023233417, 2562383102, 271733878)))"

definition hex_digit :: "nat \<Rightarrow> char" where
  "hex_digit d = ''0123456789abcdef'' ! d"

text \<open>\<^verbatim>\<open>hashlib.md5(data.encode()).hexdigest()\<close>, for a string of characters below 128, which
  UTF-8 encodes as one byte each.\<close>

definition hashlib_md5 :: "string \<Rightarrow> string" where
  "hashlib_md5 data =
     concat (map (\<lambda>b. [hex_digit (b div 16), hex_digit (b mod 16)])
               (md5_digest (map of_char data)))"

section \<open>Properties\<close>

subsection \<open>Sequencing\<close>

lemma bindR_Inr_iff: "bindR m f = Inr b \<longleftrightarrow> (\<exists>a. m = Inr a \<and> f a = Inr b)"
  by (cases m) auto

subsection \<open>The validator\<close>


lemma bindR_Inl_iff: "bindR m f = Inl e \<longleftrightarrow> m = Inl e \<or> (\<exists>a. m = Inr a \<and> f a = Inl e)"
  by (cases m) auto

lemma bfs_component_total:
  "set queue \<subseteq> fst ` set segments \<Longrightarrow> \<exists>r. bfs_component segments queue visited component = Inr r"
proof (induction segments queue visited component rule: bfs_component.induct)
  case (1 segments visited component)
  show ?case by simp
next
  case (2 segments current_id queue visited component)
  show ?case
  proof (cases "current_id \<in> visited")
    case True
    with 2 show ?thesis by simp
  next
    case False
    from 2(3) have "current_id \<in> fst ` set segments" by simp
    then obtain seg where seg: "map_of segments current_id = Some seg"
      by (metis map_of_eq_None_iff not_Some_eq)
    have "\<exists>r. bfs_component segments
            ((queue @ filter (\<lambda>succ_id. succ_id \<notin> insert current_id visited \<and> succ_id \<in> fst ` set segments)
                       (get_list (v_successors seg))) @
             filter (\<lambda>pred_id. pred_id \<notin> insert current_id visited \<and> pred_id \<in> fst ` set segments)
                       (get_list (v_predecessors seg)))
            (insert current_id visited) (insert current_id component) = Inr r"
      using 2(3) by (intro 2(2)[OF False seg refl refl refl]) auto
    then show ?thesis using False seg by (simp add: Let_def)
  qed
qed

lemma components_loop_total:
  "set ids \<subseteq> fst ` set segments \<Longrightarrow> \<exists>r. components_loop segments ids visited components = Inr r"
proof (induction ids arbitrary: visited components)
  case Nil
  show ?case by simp
next
  case (Cons sid rest)
  show ?case
  proof (cases "sid \<in> visited")
    case True
    with Cons show ?thesis by simp
  next
    case False
    from Cons.prems have "set [sid] \<subseteq> fst ` set segments" by simp
    from bfs_component_total[OF this, of visited "{}"]
    obtain v c where "bfs_component segments [sid] visited {} = Inr (v, c)" by force
    moreover from Cons have "\<exists>r. components_loop segments rest v (components @ [c]) = Inr r" by simp
    ultimately show ?thesis using False by simp
  qed
qed

lemma find_connected_components_total:
  "\<exists>cs. find_connected_components segments = Inr cs"
proof -
  obtain r where "components_loop segments (map fst segments) {} [] = Inr r"
    using components_loop_total[of "map fst segments" segments "{}" "[]"] by auto
  then show ?thesis by (simp add: find_connected_components_def)
qed

lemma guarded_fraction_total:
  "\<exists>r. guarded_fraction a segments = Inr r"
  by (simp add: guarded_fraction_def py_div_def)

lemma guarded_fraction_empty: "guarded_fraction a [] = Inr 0"
  by (simp add: guarded_fraction_def)

lemma validate_graph_unfold:
  assumes "find_connected_components (dict_of v_id gs) = Inr cs"
    and "largest_component_fraction (dict_of v_id gs) = Inr lp"
    and "reachable_fraction (dict_of v_id gs) = Inr rp"
    and "interior_dead_fraction (dict_of v_id gs) (dict_of vn_id ns) = Inr dp"
    and "compute_statistics (dict_of v_id gs) = Inr st"
  shows "\<exists>report. validate_graph gs ns = Inr report \<and>
           failures report = check_thresholds lp dp rp \<and>
           passed report = (check_thresholds lp dp rp = [])"
  using assms by (simp add: validate_graph_def Let_def split: prod.splits)

lemma compute_statistics_total: "\<exists>st. compute_statistics segments = Inr st"
proof -
  obtain a where a: "guarded_fraction (sum_list (map (\<lambda>(sid, s). length (get_list (v_successors s))) segments)) segments = Inr a"
    using guarded_fraction_total by blast
  obtain b where b: "guarded_fraction (sum_list (map (\<lambda>(sid, s). length (get_list (v_predecessors s))) segments)) segments = Inr b"
    using guarded_fraction_total by blast
  show ?thesis using a b by (simp add: compute_statistics_def Let_def)
qed

lemma check_thresholds_empty_iff:
  "check_thresholds lp dp rp = [] \<longleftrightarrow> 0.90 \<le> lp \<and> 0.85 \<le> rp \<and> dp \<le> 0.05"
  by (auto simp: check_thresholds_def LARGEST_COMPONENT_THRESHOLD_def
      INTERIOR_DEAD_END_THRESHOLD_def ENTRY_REACHABILITY_THRESHOLD_def)

text \<open>
  Claim C3. For every graph file and node file the validator returns a report (no exception
  is possible), and the report is a PASS exactly when the largest-component fraction is at
  least 0.90, the entry-reachability fraction at least 0.85 and the interior-dead-end fraction
  at most 0.05. The failures list holds exactly the violated thresholds, in the order the
  script checks them, and the exit status is 0 on a pass and 1 otherwise.
\<close>

theorem validator_pass_iff_thresholds:
  "\<exists>report lp rp dp.
     validator_main gs ns = Inr (report, if passed report then 0 else 1) \<and>
     largest_component_fraction (dict_of v_id gs) = Inr lp \<and>
     reachable_fraction (dict_of v_id gs) = Inr rp \<and>
     interior_dead_fraction (dict_of v_id gs) (dict_of vn_id ns) = Inr dp \<and>
     (passed report \<longleftrightarrow> 0.90 \<le> lp \<and> 0.85 \<le> rp \<and> dp \<le> 0.05) \<and>
     failures report =
       (if lp < 0.90 then [LargestComponentFailure lp] else []) @
       (if 0.05 < dp then [InteriorDeadEndFailure dp] else []) @
       (if rp < 0.85 then [EntryReachabilityFailure rp] else [])"
proof -
  obtain cs where cs: "find_connected_components (dict_of v_id gs) = Inr cs"
    using find_connected_components_total by blast
  obtain lp where lp: "largest_component_fraction (dict_of v_id gs) = Inr lp"
    using cs guarded_fraction_total by (fastforce simp: largest_component_fraction_def)
  obtain rp where rp: "reachable_fraction (dict_of v_id gs) = Inr rp"
    using guarded_fraction_total by (fastforce simp: reachable_fraction_def)
  obtain dp where dp: "interior_dead_fraction (dict_of v_id gs) (dict_of vn_id ns) = Inr dp"
    using guarded_fraction_total by (fastforce simp: interior_dead_fraction_def)
  obtain st where st: "compute_statistics (dict_of v_id gs) = Inr st"
    using compute_statistics_total by blast
  from validate_graph_unfold[OF cs lp rp dp st]
  obtain report where r: "validate_graph gs ns = Inr report"
    "failures report = check_thresholds lp dp rp"
    "passed report = (check_thresholds lp dp rp = [])" by blast
  have "validator_main gs ns = Inr (report, if passed report then 0 else 1)"
    using r(1) by (simp add: validator_main_def)
  moreover have "passed report \<longleftrightarrow> 0.90 \<le> lp \<and> 0.85 \<le> rp \<and> dp \<le> 0.05"
    using r(3) check_thresholds_empty_iff by simp
  moreover have "failures report =
       (if lp < 0.90 then [LargestComponentFailure lp] else []) @
       (if 0.05 < dp then [InteriorDeadEndFailure dp] else []) @
       (if rp < 0.85 then [EntryReachabilityFailure rp] else [])"
    using r(2) by (simp add: check_thresholds_def LARGEST_COMPONENT_THRESHOLD_def
      INTERIOR_DEAD_END_THRESHOLD_def ENTRY_REACHABILITY_THRESHOLD_def)
  ultimately show ?thesis using lp rp dp by blast
qed

lemma dict_of_Nil: "dict_of key [] = []"
  by (simp add: dict_of_def)

text \<open>
  Claim C10. On an empty segment collection every guarded fraction is 0 rather than a
  ZeroDivisionError, and the validator returns a complete report: all counts and percentages
  are 0, and the report fails on the largest-component and the reachability threshold.
\<close>

theorem validator_empty_graph:
  "guarded_fraction a [] = Inr 0 \<and>
   validate_graph [] ns =
     Inr \<lparr>totalSegments = 0, totalNodes = length (dict_of vn_id ns), componentCount = 0,
          largestComponentSize = 0, largestComponentPct = 0, reachableFromEntries = 0,
          reachableFromEntriesPct = 0, interiorDeadEnds = 0, interiorDeadEndPct = 0,
          boundaryDeadEnds = 0, rp_entryPointCount = 0, rp_majorSegmentCount = 0,
          avgSuccessors = 0, avgPredecessors = 0, passed = False,
          failures = [LargestComponentFailure 0, EntryReachabilityFailure 0]\<rparr>"
  by (simp add: validate_graph_def dict_of_Nil find_connected_components_def
      largest_component_fraction_def reachable_fraction_def interior_dead_fraction_def
      find_reachable_from_entries_def count_dead_ends_def compute_statistics_def
      guarded_fraction_def check_thresholds_def py_round_def round_half_even_def
      LARGEST_COMPONENT_THRESHOLD_def INTERIOR_DEAD_END_THRESHOLD_def
      ENTRY_REACHABILITY_THRESHOLD_def)

subsection \<open>Adjacency\<close>

lemma mapR_Inr:
  "mapR f xs = Inr ys \<Longrightarrow> length ys = length xs \<and> (\<forall>i<length xs. f (xs ! i) = Inr (ys ! i))"
proof (induction xs arbitrary: ys)
  case Nil
  then show ?case by simp
next
  case (Cons x xs)
  from Cons.prems obtain y ys' where y: "f x = Inr y" and ys': "mapR f xs = Inr ys'" and ys: "ys = y # ys'"
    by (auto simp: bindR_Inr_iff)
  from Cons.IH[OF ys'] have "length ys' = length xs" and nth: "\<forall>i<length xs. f (xs ! i) = Inr (ys' ! i)"
    by auto
  then show ?case using y ys by (auto simp: nth_Cons split: nat.splits)
qed

lemma mapR_Inl:
  "mapR f xs = Inl e \<Longrightarrow> \<exists>x\<in>set xs. f x = Inl e"
proof (induction xs)
  case Nil
  then show ?case by simp
next
  case (Cons x xs)
  then show ?case by (cases "f x"; cases "mapR f xs") auto
qed

lemma mapR_total:
  "(\<And>x. x \<in> set xs \<Longrightarrow> \<exists>y. f x = Inr y) \<Longrightarrow> \<exists>ys. mapR f xs = Inr ys"
proof (induction xs)
  case Nil
  show ?case by simp
next
  case (Cons x xs)
  then obtain y ys where "f x = Inr y" "mapR f xs = Inr ys" by (metis list.set_intros)
  then show ?case by simp
qed

lemma mapR_first_error:
  "x \<in> set xs \<Longrightarrow> f x = Inl e \<Longrightarrow> (\<And>y. y \<in> set xs \<Longrightarrow> f y = Inl e \<or> (\<exists>r. f y = Inr r)) \<Longrightarrow> mapR f xs = Inl e"
proof (induction xs)
  case Nil
  then show ?case by simp
next
  case (Cons a xs)
  show ?case
  proof (cases "f a")
    case (Inl e')
    with Cons.prems(3)[of a] show ?thesis by auto
  next
    case (Inr r)
    with Cons.prems have "x \<in> set xs" by auto
    from Cons.IH[OF this Cons.prems(2)] Cons.prems(3) have "mapR f xs = Inl e" by auto
    with Inr show ?thesis by simp
  qed
qed

text \<open>The segment lookup resolves an id to a segment that carries it.\<close>

lemma seg_map_fold_Some:
  "fold (\<lambda>i m. m(f i \<mapsto> i)) [0..<n] Map.empty c = Some k \<Longrightarrow> k < n \<and> f k = c"
proof (induction n)
  case 0
  then show ?case by simp
next
  case (Suc n)
  then show ?case by (auto simp: less_Suc_eq split: if_splits)
qed

lemma seg_map_fold_dom:
  "dom (fold (\<lambda>i m. m(f i \<mapsto> i)) [0..<n] Map.empty) = f ` {0..<n}"
proof (induction n)
  case 0
  then show ?case by simp
next
  case (Suc n)
  have "dom (fold (\<lambda>i m. m(f i \<mapsto> i)) [0..<Suc n] Map.empty) =
        insert (f n) (dom (fold (\<lambda>i m. m(f i \<mapsto> i)) [0..<n] Map.empty))"
    by simp
  also have "\<dots> = insert (f n) (f ` {0..<n})" by (simp only: Suc)
  also have "\<dots> = f ` {0..<Suc n}" by (simp add: atLeast0_lessThan_Suc)
  finally show ?case .
qed

lemma seg_map_of_Some:
  "seg_map_of segs c = Some k \<Longrightarrow> k < length segs \<and> seg_id (segs ! k) = c"
  unfolding seg_map_of_def by (rule seg_map_fold_Some)

lemma seg_map_of_dom: "dom (seg_map_of segs) = set (map seg_id segs)"
proof -
  have "(\<lambda>i. seg_id (segs ! i)) ` {0..<length segs} = set (map seg_id segs)"
    by (force simp: in_set_conv_nth)
  then show ?thesis unfolding seg_map_of_def seg_map_fold_dom .
qed

text \<open>The successor pass filters the candidates of the end node.\<close>

lemma scan_candidates_Inr:
  "scan_candidates sm hs sid eh cs = Inr r \<Longrightarrow>
     r = filter (\<lambda>c. c \<noteq> sid \<and> angle_difference eh (fst (hs ! the (sm c))) \<le> ANGLE_THRESHOLD) cs \<and>
     (\<forall>c\<in>set cs. c \<noteq> sid \<longrightarrow> c \<in> dom sm)"
proof (induction cs arbitrary: r)
  case Nil
  then show ?case by simp
next
  case (Cons c cs)
  show ?case
  proof (cases "c = sid")
    case True
    with Cons show ?thesis by simp
  next
    case False
    with Cons.prems obtain k r' where k: "sm c = Some k"
      and r': "scan_candidates sm hs sid eh cs = Inr r'"
      and r: "r = (if angle_difference eh (fst (hs ! k)) \<le> ANGLE_THRESHOLD then c # r' else r')"
      by (auto simp: bindR_Inr_iff split: option.splits)
    from Cons.IH[OF r'] show ?thesis using False k r by auto
  qed
qed

lemma scan_candidates_error:
  "scan_candidates sm hs sid eh cs = Inl e \<Longrightarrow> e = KeyError"
proof (induction cs)
  case Nil
  then show ?case by simp
next
  case (Cons c cs)
  then show ?case
    by (cases "scan_candidates sm hs sid eh cs") (auto split: if_splits option.splits)
qed

lemma append_preds_fold:
  assumes "links_ok sm (length ps) succs"
  shows "\<exists>ps'. foldR (append_predecessor sm sid) succs ps = Inr ps' \<and> length ps' = length ps \<and>
           (\<forall>k<length ps. ps' ! k = ps ! k @ map (\<lambda>c. sid) (filter (\<lambda>c. sm c = Some k) succs)) \<and>
           sum_list (map length ps') = sum_list (map length ps) + length succs"
  using assms
proof (induction succs arbitrary: ps)
  case Nil
  then show ?case by simp
next
  case (Cons c cs)
  from Cons.prems obtain k where k: "sm c = Some k" "k < length ps"
    by (auto simp: links_ok_def)
  let ?ps1 = "ps[k := ps ! k @ [sid]]"
  have step: "append_predecessor sm sid c ps = Inr ?ps1"
    using k by (simp add: append_predecessor_def)
  have ok: "links_ok sm (length ?ps1) cs"
    using Cons.prems by (simp add: links_ok_def)
  from Cons.IH[OF ok] obtain ps' where ps': "foldR (append_predecessor sm sid) cs ?ps1 = Inr ps'"
    "length ps' = length ps"
    "\<forall>j<length ps. ps' ! j = ?ps1 ! j @ map (\<lambda>c. sid) (filter (\<lambda>c. sm c = Some j) cs)"
    "sum_list (map length ps') = sum_list (map length ?ps1) + length cs"
    by auto
  have sum1: "sum_list (map length ?ps1) = Suc (sum_list (map length ps))"
  proof -
    have "ps = take k ps @ ps ! k # drop (Suc k) ps"
      using k(2) by (simp add: id_take_nth_drop)
    moreover have "?ps1 = take k ps @ (ps ! k @ [sid]) # drop (Suc k) ps"
      using k(2) by (simp add: upd_conv_take_nth_drop)
    ultimately have "sum_list (map length ?ps1) =
        sum_list (map length (take k ps)) + Suc (length (ps ! k)) + sum_list (map length (drop (Suc k) ps))"
      and "sum_list (map length ps) =
        sum_list (map length (take k ps)) + length (ps ! k) + sum_list (map length (drop (Suc k) ps))"
      by (simp, metis (no_types, lifting) add.assoc list.simps(9) map_append sum_list.Cons sum_list.append)
    then show ?thesis by simp
  qed
  have nth: "\<forall>j<length ps. ps' ! j = ps ! j @ map (\<lambda>c. sid) (filter (\<lambda>c. sm c = Some j) (c # cs))"
    using ps'(3) k by (auto simp: nth_list_update)
  show ?case using step ps'(1,2,4) nth sum1 by simp
qed

lemma predecessors_fold:
  assumes "\<forall>(sid, succs)\<in>set links. links_ok sm (length ps) succs"
  shows "\<exists>ps'. foldR (\<lambda>(sid, succs). foldR (append_predecessor sm sid) succs) links ps = Inr ps' \<and>
           length ps' = length ps \<and>
           (\<forall>k<length ps. ps' ! k = ps ! k @
              concat (map (\<lambda>(sid, succs). map (\<lambda>c. sid) (filter (\<lambda>c. sm c = Some k) succs)) links)) \<and>
           sum_list (map length ps') = sum_list (map length ps) + sum_list (map (\<lambda>(sid, succs). length succs) links)"
  using assms
proof (induction links arbitrary: ps)
  case Nil
  then show ?case by simp
next
  case (Cons l links)
  obtain sid succs where l: "l = (sid, succs)" by (cases l)
  from Cons.prems l have ok: "links_ok sm (length ps) succs" by simp
  from append_preds_fold[OF ok, of sid] obtain ps1 where ps1:
    "foldR (append_predecessor sm sid) succs ps = Inr ps1" "length ps1 = length ps"
    "\<forall>k<length ps. ps1 ! k = ps ! k @ map (\<lambda>c. sid) (filter (\<lambda>c. sm c = Some k) succs)"
    "sum_list (map length ps1) = sum_list (map length ps) + length succs"
    by blast
  from Cons.prems ps1(2) have "\<forall>(sid, succs)\<in>set links. links_ok sm (length ps1) succs" by simp
  from Cons.IH[OF this] obtain ps' where ps':
    "foldR (\<lambda>(sid, succs). foldR (append_predecessor sm sid) succs) links ps1 = Inr ps'"
    "length ps' = length ps1"
    "\<forall>k<length ps1. ps' ! k = ps1 ! k @
        concat (map (\<lambda>(sid, succs). map (\<lambda>c. sid) (filter (\<lambda>c. sm c = Some k) succs)) links)"
    "sum_list (map length ps') = sum_list (map length ps1) + sum_list (map (\<lambda>(sid, succs). length succs) links)"
    by blast
  show ?case using l ps1 ps' by simp
qed

lemma predecessors_pass_Inr:
  assumes "\<forall>(sid, succs)\<in>set links. links_ok sm (length links) succs"
  shows "\<exists>preds. predecessors_pass sm links = Inr preds \<and> length preds = length links \<and>
           (\<forall>k<length links. preds ! k =
              concat (map (\<lambda>(sid, succs). map (\<lambda>c. sid) (filter (\<lambda>c. sm c = Some k) succs)) links)) \<and>
           sum_list (map length preds) = sum_list (map (\<lambda>(sid, succs). length succs) links)"
proof -
  have "\<forall>(sid, succs)\<in>set links. links_ok sm (length (replicate (length links) ([]::string list))) succs"
    using assms by simp
  from predecessors_fold[OF this] show ?thesis
    unfolding predecessors_pass_def by (auto simp: o_def)
qed

lemma adj_fields [simp]:
  "seg_id (segment.extend s (adj_segment.fields a b c d)) = seg_id s"
  "points (segment.extend s (adj_segment.fields a b c d)) = points s"
  "startHeadingDeg (segment.extend s (adj_segment.fields a b c d)) = a"
  "endHeadingDeg (segment.extend s (adj_segment.fields a b c d)) = b"
  "successors (segment.extend s (adj_segment.fields a b c d)) = c"
  "predecessors (segment.extend s (adj_segment.fields a b c d)) = d"
  by (simp_all add: segment.extend_def adj_segment.fields_def)

text \<open>What a returning adjacency pass has computed.\<close>

lemma segment_successors_Inr:
  assumes "segment_successors nodes emap sm hs (sid, eh) = Inr r"
  shows "\<exists>nid end_node. emap sid = Some nid \<and> map_of nodes nid = Some end_node \<and>
           r = filter (\<lambda>c. c \<noteq> sid \<and> angle_difference eh (fst (hs ! the (sm c))) \<le> ANGLE_THRESHOLD)
                 (outgoing end_node) \<and>
           (\<forall>c\<in>set (outgoing end_node). c \<noteq> sid \<longrightarrow> c \<in> dom sm)"
  using assms scan_candidates_Inr[of sm hs sid eh _ r]
  by (auto simp: segment_successors_def split: option.splits)

lemma build_adjacency_passes:
  assumes "mapR segment_headings segs = Inr hs"
    and "mapR (segment_successors nodes emap (seg_map_of segs) hs) (zip (map seg_id segs) (map snd hs)) = Inr succs"
  shows "\<exists>preds. predecessors_pass (seg_map_of segs) (zip (map seg_id segs) succs) = Inr preds \<and>
           length preds = length segs \<and>
           (\<forall>k<length segs. preds ! k =
              concat (map (\<lambda>(sid, ss). map (\<lambda>c. sid) (filter (\<lambda>c. seg_map_of segs c = Some k) ss))
                        (zip (map seg_id segs) succs))) \<and>
           sum_list (map length preds) = sum_list (map length succs)"
proof -
  let ?sm = "seg_map_of segs" and ?ids = "map seg_id segs"
  from mapR_Inr[OF assms(1)] have lhs: "length hs = length segs" by simp
  from mapR_Inr[OF assms(2)] lhs have lsuccs: "length succs = length segs"
    and nth: "\<forall>i<length segs. segment_successors nodes emap ?sm hs (?ids ! i, snd (hs ! i)) = Inr (succs ! i)"
    by auto
  have ok: "links_ok ?sm (length segs) (succs ! i)" if "i < length segs" for i
  proof -
    from nth that segment_successors_Inr[of nodes emap ?sm hs "?ids ! i" "snd (hs ! i)" "succs ! i"]
    have "\<forall>c\<in>set (succs ! i). c \<in> dom ?sm" by auto
    then show ?thesis using seg_map_of_Some[of segs] by (fastforce simp: links_ok_def)
  qed
  have "\<forall>(sid, ss)\<in>set (zip ?ids succs). links_ok ?sm (length (zip ?ids succs)) ss"
    using ok lsuccs by (auto simp: in_set_zip)
  from predecessors_pass_Inr[OF this] obtain preds where p:
    "predecessors_pass ?sm (zip ?ids succs) = Inr preds" "length preds = length (zip ?ids succs)"
    "\<forall>k<length (zip ?ids succs). preds ! k =
        concat (map (\<lambda>(sid, ss). map (\<lambda>c. sid) (filter (\<lambda>c. ?sm c = Some k) ss)) (zip ?ids succs))"
    "sum_list (map length preds) = sum_list (map (\<lambda>(sid, ss). length ss) (zip ?ids succs))"
    by blast
  have "map (\<lambda>(sid, ss). length ss) (zip ?ids succs) = map length succs"
    using lsuccs by (intro nth_equalityI) auto
  then show ?thesis using p lsuccs by auto
qed

lemma build_adjacency_Inr:
  assumes "build_adjacency segs nodes smap emap = Inr out"
  shows "\<exists>hs succs preds.
           mapR segment_headings segs = Inr hs \<and>
           mapR (segment_successors nodes emap (seg_map_of segs) hs) (zip (map seg_id segs) (map snd hs)) = Inr succs \<and>
           predecessors_pass (seg_map_of segs) (zip (map seg_id segs) succs) = Inr preds \<and>
           out = map (\<lambda>i. segment.extend (segs ! i)
                     (adj_segment.fields (fst (hs ! i)) (snd (hs ! i)) (succs ! i) (preds ! i)))
                   [0..<length segs]"
  using assms
  by (auto simp: build_adjacency_def Let_def bindR_Inr_iff split: if_splits)

lemma build_adjacency_no_assertion_error:
  "build_adjacency segs nodes smap emap \<noteq> Inl AssertionError"
proof
  assume a: "build_adjacency segs nodes smap emap = Inl AssertionError"
  show False
  proof (cases "mapR segment_headings segs")
    case (Inl e)
    then obtain s :: segment where "segment_headings s = Inl e" using mapR_Inl by blast
    then have "e = IndexError" by (auto simp: segment_headings_def Let_def split: if_splits)
    with a Inl show False by (simp add: build_adjacency_def Let_def)
  next
    case hs: (Inr hs)
    show False
    proof (cases "mapR (segment_successors nodes emap (seg_map_of segs) hs) (zip (map seg_id segs) (map snd hs))")
      case (Inl e)
      then obtain x where "segment_successors nodes emap (seg_map_of segs) hs x = Inl e"
        using mapR_Inl by blast
      then have "e = KeyError"
        using scan_candidates_error by (cases x) (auto simp: segment_successors_def split: option.splits)
      with a hs Inl show False by (simp add: build_adjacency_def Let_def)
    next
      case succs: (Inr succs)
      from build_adjacency_passes[OF hs succs] obtain preds where
        "predecessors_pass (seg_map_of segs) (zip (map seg_id segs) succs) = Inr preds"
        "sum_list (map length preds) = sum_list (map length succs)" by blast
      with a hs succs show False by (simp add: build_adjacency_def Let_def)
    qed
  qed
qed

lemma build_adjacency_fields:
  assumes "build_adjacency segs nodes smap emap = Inr out"
  shows "\<exists>hs succs preds.
           length out = length segs \<and> length hs = length segs \<and> length succs = length segs \<and>
           length preds = length segs \<and>
           (\<forall>i<length segs. segment_headings (segs ! i) = Inr (hs ! i)) \<and>
           (\<forall>i<length segs. segment_successors nodes emap (seg_map_of segs) hs
                               (seg_id (segs ! i), snd (hs ! i)) = Inr (succs ! i)) \<and>
           (\<forall>k<length segs. preds ! k =
              concat (map (\<lambda>(sid, ss). map (\<lambda>c. sid) (filter (\<lambda>c. seg_map_of segs c = Some k) ss))
                        (zip (map seg_id segs) succs))) \<and>
           sum_list (map length preds) = sum_list (map length succs) \<and>
           (\<forall>i<length segs. seg_id (out ! i) = seg_id (segs ! i) \<and>
              startHeadingDeg (out ! i) = fst (hs ! i) \<and> endHeadingDeg (out ! i) = snd (hs ! i) \<and>
              successors (out ! i) = succs ! i \<and> predecessors (out ! i) = preds ! i)"
proof -
  from build_adjacency_Inr[OF assms] obtain hs succs preds where
    hs: "mapR segment_headings segs = Inr hs" and
    succs: "mapR (segment_successors nodes emap (seg_map_of segs) hs) (zip (map seg_id segs) (map snd hs)) = Inr succs" and
    preds: "predecessors_pass (seg_map_of segs) (zip (map seg_id segs) succs) = Inr preds" and
    out: "out = map (\<lambda>i. segment.extend (segs ! i)
                     (adj_segment.fields (fst (hs ! i)) (snd (hs ! i)) (succs ! i) (preds ! i)))
                   [0..<length segs]"
    by blast
  from mapR_Inr[OF hs] have lhs: "length hs = length segs"
    and nhs: "\<forall>i<length segs. segment_headings (segs ! i) = Inr (hs ! i)" by auto
  from mapR_Inr[OF succs] lhs have lsuccs: "length succs = length segs"
    and nsuccs: "\<forall>i<length segs. segment_successors nodes emap (seg_map_of segs) hs
                               (seg_id (segs ! i), snd (hs ! i)) = Inr (succs ! i)" by auto
  from build_adjacency_passes[OF hs succs] preds have lpreds: "length preds = length segs"
    and npreds: "\<forall>k<length segs. preds ! k =
              concat (map (\<lambda>(sid, ss). map (\<lambda>c. sid) (filter (\<lambda>c. seg_map_of segs c = Some k) ss))
                        (zip (map seg_id segs) succs))"
    and sums: "sum_list (map length preds) = sum_list (map length succs)" by auto
  have "length out = length segs" using out by simp
  moreover have "\<forall>i<length segs. seg_id (out ! i) = seg_id (segs ! i) \<and>
              startHeadingDeg (out ! i) = fst (hs ! i) \<and> endHeadingDeg (out ! i) = snd (hs ! i) \<and>
              successors (out ! i) = succs ! i \<and> predecessors (out ! i) = preds ! i"
    using out by simp
  ultimately show ?thesis using lhs nhs lsuccs nsuccs lpreds npreds sums by blast
qed

lemma sum_list_nth_cong:
  "length xs = length ys \<Longrightarrow> (\<And>i. i < length xs \<Longrightarrow> f (xs ! i) = g (ys ! i)) \<Longrightarrow>
   sum_list (map f xs) = sum_list (map g ys)"
  by (rule arg_cong[where f = sum_list], rule nth_equalityI) auto

text \<open>
  Claim C1. The adjacency pass never fails its own assertion, and when it returns, the
  predecessor lists are the inverse of the successor lists: every id \<open>c\<close> in the successors
  of a segment \<open>S\<close> names a segment (the one the lookup resolves \<open>c\<close> to) whose predecessors
  hold the id of \<open>S\<close>; every id \<open>p\<close> in the predecessors of a segment \<open>C\<close> names a segment
  whose successors hold the id of \<open>C\<close>; and the total number of predecessor links equals the
  total number of successor links.
\<close>

theorem predecessors_inverse_of_successors:
  "build_adjacency segs nodes smap emap \<noteq> Inl AssertionError \<and>
   (build_adjacency segs nodes smap emap = Inr out \<longrightarrow>
      length out = length segs \<and>
      (\<forall>i<length out. \<forall>c\<in>set (successors (out ! i)).
         \<exists>k<length out. seg_map_of segs c = Some k \<and> seg_id (out ! k) = c \<and>
                         seg_id (out ! i) \<in> set (predecessors (out ! k))) \<and>
      (\<forall>k<length out. \<forall>p\<in>set (predecessors (out ! k)).
         \<exists>i<length out. seg_id (out ! i) = p \<and> seg_id (out ! k) \<in> set (successors (out ! i))) \<and>
      sum_list (map (\<lambda>s. length (predecessors s)) out) =
        sum_list (map (\<lambda>s. length (successors s)) out))"
proof (intro conjI impI)
  show "build_adjacency segs nodes smap emap \<noteq> Inl AssertionError"
    by (rule build_adjacency_no_assertion_error)
next
  assume a: "build_adjacency segs nodes smap emap = Inr out"
  from build_adjacency_fields[OF a] obtain hs succs preds where
    len: "length out = length segs" "length succs = length segs" "length preds = length segs" and
    nsuccs: "\<forall>i<length segs. segment_successors nodes emap (seg_map_of segs) hs
                               (seg_id (segs ! i), snd (hs ! i)) = Inr (succs ! i)" and
    npreds: "\<forall>k<length segs. preds ! k =
              concat (map (\<lambda>(sid, ss). map (\<lambda>c. sid) (filter (\<lambda>c. seg_map_of segs c = Some k) ss))
                        (zip (map seg_id segs) succs))" and
    sums: "sum_list (map length preds) = sum_list (map length succs)" and
    flds: "\<forall>i<length segs. seg_id (out ! i) = seg_id (segs ! i) \<and>
              successors (out ! i) = succs ! i \<and> predecessors (out ! i) = preds ! i"
    by blast
  show "length out = length segs" by (rule len(1))
  show "\<forall>i<length out. \<forall>c\<in>set (successors (out ! i)).
         \<exists>k<length out. seg_map_of segs c = Some k \<and> seg_id (out ! k) = c \<and>
                         seg_id (out ! i) \<in> set (predecessors (out ! k))"
  proof (intro allI impI ballI)
    fix i c
    assume i: "i < length out" and c: "c \<in> set (successors (out ! i))"
    from i len have i': "i < length segs" by simp
    with c flds have cs: "c \<in> set (succs ! i)" by simp
    from nsuccs i' segment_successors_Inr[of nodes emap "seg_map_of segs" hs "seg_id (segs ! i)" "snd (hs ! i)" "succs ! i"]
    have "\<forall>c\<in>set (succs ! i). c \<in> dom (seg_map_of segs)" by auto
    with cs obtain k where k: "seg_map_of segs c = Some k" by auto
    from seg_map_of_Some[OF k] have k': "k < length segs" "seg_id (segs ! k) = c" by auto
    have "(seg_id (segs ! i), succs ! i) \<in> set (zip (map seg_id segs) succs)"
      using i' len by (auto simp: in_set_zip intro!: exI[of _ i])
    with cs k have "seg_id (segs ! i) \<in> set (preds ! k)"
      using npreds k'(1) by (auto intro!: bexI[of _ "(seg_id (segs ! i), succs ! i)"])
    then show "\<exists>k<length out. seg_map_of segs c = Some k \<and> seg_id (out ! k) = c \<and>
                         seg_id (out ! i) \<in> set (predecessors (out ! k))"
      using k k' i' flds len by auto
  qed
  show "\<forall>k<length out. \<forall>p\<in>set (predecessors (out ! k)).
         \<exists>i<length out. seg_id (out ! i) = p \<and> seg_id (out ! k) \<in> set (successors (out ! i))"
  proof (intro allI impI ballI)
    fix k p
    assume k: "k < length out" and p: "p \<in> set (predecessors (out ! k))"
    from k len have k': "k < length segs" by simp
    with p flds npreds have "p \<in> set (concat (map (\<lambda>(sid, ss). map (\<lambda>c. sid) (filter (\<lambda>c. seg_map_of segs c = Some k) ss))
                        (zip (map seg_id segs) succs)))" by simp
    then obtain sid ss c where l: "(sid, ss) \<in> set (zip (map seg_id segs) succs)"
      and c: "c \<in> set ss" "seg_map_of segs c = Some k" and sid: "p = sid"
      by auto
    from l obtain i where i: "i < length segs" "sid = seg_id (segs ! i)" "ss = succs ! i"
      using len by (auto simp: in_set_zip)
    from seg_map_of_Some[OF c(2)] have "seg_id (segs ! k) = c" by simp
    then show "\<exists>i<length out. seg_id (out ! i) = p \<and> seg_id (out ! k) \<in> set (successors (out ! i))"
      using i c sid k' flds len by (auto intro!: exI[of _ i])
  qed
  have "sum_list (map (\<lambda>s. length (predecessors s)) out) = sum_list (map length preds)"
    using len flds by (intro sum_list_nth_cong) auto
  moreover have "sum_list (map (\<lambda>s. length (successors s)) out) = sum_list (map length succs)"
    using len flds by (intro sum_list_nth_cong) auto
  ultimately show "sum_list (map (\<lambda>s. length (predecessors s)) out) =
        sum_list (map (\<lambda>s. length (successors s)) out)"
    using sums by simp
qed

lemma arctan_sqrt3: "arctan (sqrt 3) = pi / 3"
proof (rule arctan_unique)
  show "- (pi / 2) < pi / 3" using pi_gt_zero by linarith
  show "pi / 3 < pi / 2" using pi_gt_zero by linarith
  show "tan (pi / 3) = sqrt 3" by (rule tan_60)
qed

lemma ex_headings:
  "segment_headings ex_a = Inr (0, 0)"
  "segment_headings ex_b = Inr (60, 60)"
  "segment_headings ex_c = Inr (90, 90)"
  by (simp_all add: segment_headings_def ex_a_def ex_b_def ex_c_def compute_heading_def px_def pz_def
      py_atan2_def py_mod_def arctan_sqrt3)

lemma ex_seg_map:
  "seg_map_of [ex_a, ex_b, ex_c] = [''a'' \<mapsto> 0, ''b'' \<mapsto> 1, ''c'' \<mapsto> 2]"
  by (simp add: seg_map_of_def ex_a_def ex_b_def ex_c_def eval_nat_numeral)

lemma ex_ids: "seg_id ex_a = ''a''" "seg_id ex_b = ''b''" "seg_id ex_c = ''c''"
  by (simp_all add: ex_a_def ex_b_def ex_c_def)

lemma ex_build_adjacency:
  "build_adjacency [ex_a, ex_b, ex_c] ex_nodes ex_start_map ex_end_map = Inr ex_adj"
  by (simp add: build_adjacency_def ex_headings ex_seg_map ex_ids segment_successors_def ex_nodes_def
      ex_end_map_def predecessors_pass_def append_predecessor_def angle_difference_def
      ANGLE_THRESHOLD_def ex_adj_def eval_nat_numeral)

theorem predecessors_inverse_of_successors_witness:
  "build_adjacency [ex_a, ex_b, ex_c] ex_nodes ex_start_map ex_end_map = Inr ex_adj \<and>
   ''b'' \<in> set (successors (ex_adj ! 0)) \<and>
   (\<exists>k<length ex_adj. seg_id (ex_adj ! k) = ''b'' \<and> seg_id (ex_adj ! 0) \<in> set (predecessors (ex_adj ! k))) \<and>
   predecessors (ex_adj ! 1) = [''a''] \<and>
   sum_list (map (\<lambda>s. length (predecessors s)) ex_adj) = sum_list (map (\<lambda>s. length (successors s)) ex_adj)"
proof -
  note inv = predecessors_inverse_of_successors[of "[ex_a, ex_b, ex_c]" ex_nodes ex_start_map ex_end_map ex_adj]
  have b: "''b'' \<in> set (successors (ex_adj ! 0))" by (simp add: ex_adj_def)
  have l: "0 < length ex_adj" by (simp add: ex_adj_def)
  from inv ex_build_adjacency have
    "\<forall>i<length ex_adj. \<forall>c\<in>set (successors (ex_adj ! i)).
       \<exists>k<length ex_adj. seg_map_of [ex_a, ex_b, ex_c] c = Some k \<and> seg_id (ex_adj ! k) = c \<and>
                         seg_id (ex_adj ! i) \<in> set (predecessors (ex_adj ! k))"
    and s: "sum_list (map (\<lambda>s. length (predecessors s)) ex_adj) = sum_list (map (\<lambda>s. length (successors s)) ex_adj)"
    by blast+
  with l b have "\<exists>k<length ex_adj. seg_id (ex_adj ! k) = ''b'' \<and> seg_id (ex_adj ! 0) \<in> set (predecessors (ex_adj ! k))"
    by blast
  moreover have "predecessors (ex_adj ! 1) = [''a'']" by (simp add: ex_adj_def)
  ultimately show ?thesis using ex_build_adjacency b s by blast
qed

subsection \<open>The angle test\<close>

lemma py_mod_range:
  assumes "0 < b"
  shows "0 \<le> py_mod a b \<and> py_mod a b < b"
proof -
  from floor_divide_lower[OF assms, of a] floor_divide_upper[OF assms, of a]
  show ?thesis by (simp add: py_mod_def algebra_simps)
qed

lemma compute_heading_range: "0 \<le> compute_heading p q \<and> compute_heading p q < 360"
  unfolding compute_heading_def Let_def by (rule py_mod_range) simp

lemma segment_headings_range:
  assumes "segment_headings s = Inr h"
  shows "0 \<le> fst h \<and> fst h < 360 \<and> 0 \<le> snd h \<and> snd h < 360"
proof -
  from assms have "h = (compute_heading (points s ! 0) (points s ! 1),
      compute_heading (points s ! (length (points s) - 2)) (points s ! (length (points s) - 1)))"
    by (simp add: segment_headings_def Let_def split: if_splits)
  then show ?thesis by (simp add: compute_heading_range)
qed

lemma angle_difference_sym: "angle_difference h1 h2 = angle_difference h2 h1"
  by (simp add: angle_difference_def abs_minus_commute)

lemma angle_difference_range:
  assumes "0 \<le> h1" "h1 < 360" "0 \<le> h2" "h2 < 360"
  shows "0 \<le> angle_difference h1 h2 \<and> angle_difference h1 h2 \<le> 180"
  using assms by (simp add: angle_difference_def Let_def min_def abs_if)

lemma angle_difference_attained:
  assumes "0 \<le> h1" "h1 < 360" "0 \<le> h2" "h2 < 360"
  shows "angle_difference h1 h2 = \<bar>h1 - h2\<bar> \<or> angle_difference h1 h2 = \<bar>h1 - h2 + 360\<bar> \<or>
         angle_difference h1 h2 = \<bar>h1 - h2 - 360\<bar>"
  using assms by (simp add: angle_difference_def Let_def min_def abs_if)

lemma angle_difference_least:
  assumes "0 \<le> h1" "h1 < 360" "0 \<le> h2" "h2 < 360"
  shows "angle_difference h1 h2 \<le> \<bar>h1 - h2 + 360 * of_int n\<bar>"
proof -
  consider "n = 0" | "1 \<le> n" | "n \<le> - 1" by linarith
  then show ?thesis
  proof cases
    case 1
    then show ?thesis by (simp add: angle_difference_def Let_def)
  next
    case 2
    then have "(1::real) \<le> of_int n" by simp
    then have "(360::real) \<le> 360 * of_int n" by simp
    with assms show ?thesis by (simp add: angle_difference_def Let_def min_def abs_if)
  next
    case 3
    then have "of_int n \<le> (- 1::real)" by (metis of_int_le_iff of_int_minus of_int_1)
    then have "360 * of_int n \<le> (- 360::real)" by simp
    with assms show ?thesis by (simp add: angle_difference_def Let_def min_def abs_if)
  qed
qed

text \<open>
  Claim C5. For a segment \<open>S\<close> and an id \<open>c\<close> in the outgoing list of its end node, other
  than the id of \<open>S\<close>: \<open>c\<close> is among the successors of \<open>S\<close> exactly when the angle
  difference \<open>d\<close> between the end heading \<open>e\<close> of \<open>S\<close> and the start heading \<open>s\<close> of \<open>c\<close> is
  at most 60 degrees, and nothing else becomes a successor. Both headings lie in \<open>[0, 360)\<close>,
  and \<open>d\<close> is the minimum angular difference wrapped to \<open>[0, 180]\<close>: it lies in that range,
  does not depend on the order of the two headings, is the distance of \<open>e\<close> from \<open>s\<close> or
  from \<open>s\<close> shifted by a full turn, and no shift of \<open>s\<close> by full turns comes closer to
  \<open>e\<close>. At the boundary, 0 against 60 is within the threshold and 0 against 60.01 is not.
\<close>

theorem successor_iff_angle_within_threshold:
  assumes "build_adjacency segs nodes smap emap = Inr out"
    and "i < length segs"
    and "emap (seg_id (segs ! i)) = Some nid"
    and "map_of nodes nid = Some end_node"
    and "c \<in> set (outgoing end_node)"
    and "c \<noteq> seg_id (segs ! i)"
  shows "(\<exists>k e s d. k < length out \<and> seg_map_of segs c = Some k \<and> seg_id (out ! k) = c \<and>
            e = endHeadingDeg (out ! i) \<and> s = startHeadingDeg (out ! k) \<and>
            d = angle_difference e s \<and>
            (c \<in> set (successors (out ! i)) \<longleftrightarrow> d \<le> 60) \<and>
            0 \<le> e \<and> e < 360 \<and> 0 \<le> s \<and> s < 360 \<and>
            0 \<le> d \<and> d \<le> 180 \<and> d = angle_difference s e \<and>
            (d = \<bar>e - s\<bar> \<or> d = \<bar>e - s + 360\<bar> \<or> d = \<bar>e - s - 360\<bar>) \<and>
            (\<forall>n::int. d \<le> \<bar>e - s + 360 * of_int n\<bar>)) \<and>
         set (successors (out ! i)) \<subseteq> set (outgoing end_node) - {seg_id (segs ! i)} \<and>
         angle_difference 0 60 \<le> ANGLE_THRESHOLD \<and> \<not> angle_difference 0 60.01 \<le> ANGLE_THRESHOLD"
proof -
  from build_adjacency_fields[OF assms(1)] obtain hs succs where
    len: "length out = length segs" and
    nhs: "\<forall>i<length segs. segment_headings (segs ! i) = Inr (hs ! i)" and
    nsuccs: "\<forall>i<length segs. segment_successors nodes emap (seg_map_of segs) hs
                               (seg_id (segs ! i), snd (hs ! i)) = Inr (succs ! i)" and
    flds: "\<forall>i<length segs. seg_id (out ! i) = seg_id (segs ! i) \<and>
              startHeadingDeg (out ! i) = fst (hs ! i) \<and> endHeadingDeg (out ! i) = snd (hs ! i) \<and>
              successors (out ! i) = succs ! i"
    by blast
  from nsuccs assms(2) have "segment_successors nodes emap (seg_map_of segs) hs
        (seg_id (segs ! i), snd (hs ! i)) = Inr (succs ! i)" by simp
  from segment_successors_Inr[OF this] assms(3,4) have
    r: "succs ! i = filter (\<lambda>c. c \<noteq> seg_id (segs ! i) \<and>
            angle_difference (snd (hs ! i)) (fst (hs ! the (seg_map_of segs c))) \<le> ANGLE_THRESHOLD)
          (outgoing end_node)"
    and d: "\<forall>c\<in>set (outgoing end_node). c \<noteq> seg_id (segs ! i) \<longrightarrow> c \<in> dom (seg_map_of segs)"
    by auto
  from d assms(5,6) obtain k where k: "seg_map_of segs c = Some k" by auto
  from seg_map_of_Some[OF k] have k': "k < length segs" "seg_id (segs ! k) = c" by auto
  define e where "e = endHeadingDeg (out ! i)"
  define s where "s = startHeadingDeg (out ! k)"
  have es: "e = snd (hs ! i)" "s = fst (hs ! k)" using flds assms(2) k'(1) by (simp_all add: e_def s_def)
  from nhs assms(2) have "segment_headings (segs ! i) = Inr (hs ! i)" by simp
  from segment_headings_range[OF this] have re: "0 \<le> e" "e < 360" by (simp_all add: es)
  from nhs k'(1) have "segment_headings (segs ! k) = Inr (hs ! k)" by simp
  from segment_headings_range[OF this] have rs: "0 \<le> s" "s < 360" by (simp_all add: es)
  have iff: "c \<in> set (successors (out ! i)) \<longleftrightarrow> angle_difference e s \<le> 60"
    using r k k' assms(2,5,6) flds by (auto simp: ANGLE_THRESHOLD_def es)
  have kk: "k < length out" "seg_id (out ! k) = c" using k' flds len by auto
  have "\<exists>k e s d. k < length out \<and> seg_map_of segs c = Some k \<and> seg_id (out ! k) = c \<and>
            e = endHeadingDeg (out ! i) \<and> s = startHeadingDeg (out ! k) \<and>
            d = angle_difference e s \<and>
            (c \<in> set (successors (out ! i)) \<longleftrightarrow> d \<le> 60) \<and>
            0 \<le> e \<and> e < 360 \<and> 0 \<le> s \<and> s < 360 \<and>
            0 \<le> d \<and> d \<le> 180 \<and> d = angle_difference s e \<and>
            (d = \<bar>e - s\<bar> \<or> d = \<bar>e - s + 360\<bar> \<or> d = \<bar>e - s - 360\<bar>) \<and>
            (\<forall>n::int. d \<le> \<bar>e - s + 360 * of_int n\<bar>)"
    apply (rule exI[of _ k], rule exI[of _ e], rule exI[of _ s], rule exI[of _ "angle_difference e s"])
    using kk k iff re rs angle_difference_range[OF re rs] angle_difference_attained[OF re rs]
      angle_difference_least[OF re rs] angle_difference_sym[of e s]
    by (simp add: e_def[symmetric] s_def[symmetric])
  moreover have "set (successors (out ! i)) \<subseteq> set (outgoing end_node) - {seg_id (segs ! i)}"
    using r assms(2) flds by auto
  moreover have "angle_difference 0 60 \<le> ANGLE_THRESHOLD \<and> \<not> angle_difference 0 60.01 \<le> ANGLE_THRESHOLD"
    by (simp add: angle_difference_def ANGLE_THRESHOLD_def)
  ultimately show ?thesis by blast
qed

lemma arctan_tan_theta: "arctan (sin ex_theta / cos ex_theta) = ex_theta" "0 < cos ex_theta"
proof -
  have b: "- (pi / 2) < ex_theta" "ex_theta < pi / 2"
    using pi_gt_zero by (simp_all add: ex_theta_def)
  from arctan_tan[OF b] show "arctan (sin ex_theta / cos ex_theta) = ex_theta"
    by (simp add: tan_def)
  from cos_gt_zero_pi[OF b] show "0 < cos ex_theta" .
qed

lemma ex_theta_heading: "compute_heading (0, 0, 0) (sin ex_theta, 0, - cos ex_theta) = 60.01"
proof -
  have a: "py_atan2 (sin ex_theta) (cos ex_theta) True = ex_theta"
    using arctan_tan_theta by (simp add: py_atan2_def)
  have b: "ex_theta * 180 / pi = 60.01" by (simp add: ex_theta_def)
  have c: "py_mod (60.01 + 360) 360 = 60.01" by (simp add: py_mod_def)
  have "compute_heading (0, 0, 0) (sin ex_theta, 0, - cos ex_theta) =
        py_mod (py_atan2 (sin ex_theta) (cos ex_theta) True * 180 / pi + 360) 360"
    by (simp add: compute_heading_def px_def pz_def Let_def)
  also have "\<dots> = py_mod (60.01 + 360) 360" by (simp only: a b)
  also note c
  finally show ?thesis .
qed

lemma ex_fork_headings:
  "segment_headings ex_d = Inr (60.01, 60.01)"
  "segment_headings ex_w = Inr (300, 300)"
  using ex_theta_heading
  by (simp_all add: segment_headings_def ex_d_def ex_w_def compute_heading_def px_def pz_def
      py_atan2_def py_mod_def arctan_sqrt3 arctan_minus)

lemma ex_fork_ids: "seg_id ex_d = ''d''" "seg_id ex_w = ''w''"
  by (simp_all add: ex_d_def ex_w_def)

lemma ex_fork_seg_map:
  "seg_map_of [ex_a, ex_b, ex_d, ex_w] = [''a'' \<mapsto> 0, ''b'' \<mapsto> 1, ''d'' \<mapsto> 2, ''w'' \<mapsto> 3]"
  by (simp add: seg_map_of_def ex_ids ex_fork_ids eval_nat_numeral)

lemma ex_fork_build_adjacency:
  "build_adjacency [ex_a, ex_b, ex_d, ex_w] ex_fork_nodes ex_fork_start_map ex_fork_end_map = Inr ex_fork_adj"
  by (simp add: build_adjacency_def ex_headings ex_fork_headings ex_fork_seg_map ex_ids ex_fork_ids
      segment_successors_def ex_fork_nodes_def
      ex_fork_end_map_def predecessors_pass_def append_predecessor_def angle_difference_def
      ANGLE_THRESHOLD_def ex_fork_adj_def eval_nat_numeral)

theorem successor_iff_angle_within_threshold_witness:
  "build_adjacency [ex_a, ex_b, ex_d, ex_w] ex_fork_nodes ex_fork_start_map ex_fork_end_map = Inr ex_fork_adj \<and>
   ex_fork_end_map (seg_id ([ex_a, ex_b, ex_d, ex_w] ! 0)) = Some ''node_0001'' \<and>
   outgoing (snd (ex_fork_nodes ! 1)) = [''b'', ''d'', ''w''] \<and>
   endHeadingDeg (ex_fork_adj ! 0) = 0 \<and> startHeadingDeg (ex_fork_adj ! 1) = 60 \<and>
   startHeadingDeg (ex_fork_adj ! 2) = 60.01 \<and> startHeadingDeg (ex_fork_adj ! 3) = 300 \<and>
   angle_difference 0 60 = 60 \<and> angle_difference 0 60.01 = 60.01 \<and> angle_difference 0 300 = 60 \<and>
   ''b'' \<in> set (successors (ex_fork_adj ! 0)) \<and> ''d'' \<notin> set (successors (ex_fork_adj ! 0)) \<and>
   ''w'' \<in> set (successors (ex_fork_adj ! 0))"
proof -
  let ?segs = "[ex_a, ex_b, ex_d, ex_w]"
  have h1: "(0::nat) < length ?segs" by simp
  have h2: "ex_fork_end_map (seg_id (?segs ! 0)) = Some ''node_0001''"
    by (simp add: ex_fork_end_map_def ex_ids)
  have h3: "map_of ex_fork_nodes ''node_0001'' = Some (snd (ex_fork_nodes ! 1))"
    by (simp add: ex_fork_nodes_def)
  have og: "outgoing (snd (ex_fork_nodes ! 1)) = [''b'', ''d'', ''w'']" by (simp add: ex_fork_nodes_def)
  have hb: "''b'' \<in> set (outgoing (snd (ex_fork_nodes ! 1)))" "''b'' \<noteq> seg_id (?segs ! 0)"
    and hd: "''d'' \<in> set (outgoing (snd (ex_fork_nodes ! 1)))" "''d'' \<noteq> seg_id (?segs ! 0)"
    and hw: "''w'' \<in> set (outgoing (snd (ex_fork_nodes ! 1)))" "''w'' \<noteq> seg_id (?segs ! 0)"
    using og by (simp_all add: ex_ids)
  have sm: "seg_map_of ?segs ''b'' = Some 1" "seg_map_of ?segs ''d'' = Some 2"
    "seg_map_of ?segs ''w'' = Some 3"
    by (simp_all add: ex_fork_seg_map)
  have hds: "endHeadingDeg (ex_fork_adj ! 0) = 0" "startHeadingDeg (ex_fork_adj ! 1) = 60"
    "startHeadingDeg (ex_fork_adj ! 2) = 60.01" "startHeadingDeg (ex_fork_adj ! 3) = 300"
    by (simp_all add: ex_fork_adj_def)
  have ad: "angle_difference 0 60 = 60" "angle_difference 0 60.01 = 60.01" "angle_difference 0 300 = 60"
    by (simp_all add: angle_difference_def)
  from successor_iff_angle_within_threshold[OF ex_fork_build_adjacency h1 h2 h3 hb] sm(1)
  have b: "''b'' \<in> set (successors (ex_fork_adj ! 0)) \<longleftrightarrow>
           angle_difference (endHeadingDeg (ex_fork_adj ! 0)) (startHeadingDeg (ex_fork_adj ! 1)) \<le> 60"
    by auto
  from successor_iff_angle_within_threshold[OF ex_fork_build_adjacency h1 h2 h3 hd] sm(2)
  have d: "''d'' \<in> set (successors (ex_fork_adj ! 0)) \<longleftrightarrow>
           angle_difference (endHeadingDeg (ex_fork_adj ! 0)) (startHeadingDeg (ex_fork_adj ! 2)) \<le> 60"
    by auto
  from successor_iff_angle_within_threshold[OF ex_fork_build_adjacency h1 h2 h3 hw] sm(3)
  have w: "''w'' \<in> set (successors (ex_fork_adj ! 0)) \<longleftrightarrow>
           angle_difference (endHeadingDeg (ex_fork_adj ! 0)) (startHeadingDeg (ex_fork_adj ! 3)) \<le> 60"
    by auto
  have "angle_difference (endHeadingDeg (ex_fork_adj ! 0)) (startHeadingDeg (ex_fork_adj ! 1)) \<le> 60"
    "\<not> angle_difference (endHeadingDeg (ex_fork_adj ! 0)) (startHeadingDeg (ex_fork_adj ! 2)) \<le> 60"
    "angle_difference (endHeadingDeg (ex_fork_adj ! 0)) (startHeadingDeg (ex_fork_adj ! 3)) \<le> 60"
    by (simp_all add: ex_fork_adj_def angle_difference_def)
  with b d w have "''b'' \<in> set (successors (ex_fork_adj ! 0))" "''d'' \<notin> set (successors (ex_fork_adj ! 0))"
    "''w'' \<in> set (successors (ex_fork_adj ! 0))"
    by blast+
  then show ?thesis using ex_fork_build_adjacency h2 og hds ad by blast
qed

lemma build_adjacency_degenerate:
  assumes "s \<in> set segs" and "length (points s) < 2"
  shows "build_adjacency segs nodes smap emap = Inl IndexError"
proof -
  have "segment_headings s = Inl IndexError"
    using assms(2) by (simp add: segment_headings_def)
  moreover have "segment_headings y = Inl IndexError \<or> (\<exists>r. segment_headings y = Inr r)" for y :: segment
    by (simp add: segment_headings_def Let_def)
  ultimately have "mapR segment_headings segs = Inl IndexError"
    using assms(1) by (intro mapR_first_error) auto
  then show ?thesis by (simp add: build_adjacency_def Let_def)
qed

lemma graph_fields [simp]:
  "seg_id (adj_segment.extend s (graph_segment.fields a b c d e f)) = seg_id s"
  "points (adj_segment.extend s (graph_segment.fields a b c d e f)) = points s"
  "successors (adj_segment.extend s (graph_segment.fields a b c d e f)) = successors s"
  "predecessors (adj_segment.extend s (graph_segment.fields a b c d e f)) = predecessors s"
  "startNodeId (adj_segment.extend s (graph_segment.fields a b c d e f)) = a"
  "endNodeId (adj_segment.extend s (graph_segment.fields a b c d e f)) = b"
  "speedRatio (adj_segment.extend s (graph_segment.fields a b c d e f)) = c"
  "lengthMeters (adj_segment.extend s (graph_segment.fields a b c d e f)) = d"
  "isMajor (adj_segment.extend s (graph_segment.fields a b c d e f)) = e"
  "isEntry (adj_segment.extend s (graph_segment.fields a b c d e f)) = f"
  by (simp_all add: adj_segment.extend_def graph_segment.fields_def)

lemma augment_segment_Inr:
  assumes "augment_segment nodes smap emap seg = Inr g"
  shows "\<exists>max_spawn speed_ratio.
           py_max (spawnRates seg) = Inr max_spawn \<and>
           py_div (avgSpeedMph seg) (freeFlowSpeedMph seg) = Inr speed_ratio \<and>
           speedRatio g = max 0.01 (min 1.0 (py_round speed_ratio 3)) \<and>
           lengthMeters g = py_round (compute_length (points seg)) 2 \<and>
           (isMajor g \<longleftrightarrow> 0.30 < max_spawn \<or> 0.50 < speedRatio g \<or> 150 < lengthMeters g)"
  using assms
  by (auto simp: augment_segment_def Let_def bindR_Inr_iff SPAWN_RATE_THRESHOLD_def
      SPEED_RATIO_THRESHOLD_def LENGTH_THRESHOLD_def split: option.splits)

subsection \<open>Classification\<close>

text \<open>
  Claim C6. \<open>isMajor\<close> is the disjunction of three strict comparisons: the maximum spawn
  rate above 0.30, the stored \<open>speedRatio\<close> (rounded to three decimals and clamped to
  \<open>[0.01, 1]\<close>) above 0.50, the stored \<open>lengthMeters\<close> (rounded to two decimals) above 150.
\<close>

theorem is_major_plain_or:
  assumes "augment_segments segs nodes smap emap = Inr out" and "i < length segs"
  shows "\<exists>max_spawn speed_ratio.
           py_max (spawnRates (segs ! i)) = Inr max_spawn \<and>
           py_div (avgSpeedMph (segs ! i)) (freeFlowSpeedMph (segs ! i)) = Inr speed_ratio \<and>
           speedRatio (out ! i) = max 0.01 (min 1.0 (py_round speed_ratio 3)) \<and>
           lengthMeters (out ! i) = py_round (compute_length (points (segs ! i))) 2 \<and>
           (isMajor (out ! i) \<longleftrightarrow>
              0.30 < max_spawn \<or> 0.50 < speedRatio (out ! i) \<or> 150 < lengthMeters (out ! i))"
proof -
  from assms(1) have "mapR (augment_segment nodes smap emap) segs = Inr out"
    by (auto simp: augment_segments_def bindR_Inr_iff split: if_splits)
  from mapR_Inr[OF this] assms(2) have "augment_segment nodes smap emap (segs ! i) = Inr (out ! i)"
    by simp
  from augment_segment_Inr[OF this] show ?thesis .
qed

lemma sqrt_40000: "sqrt 40000 = 200"
  by (rule real_sqrt_unique) simp_all

lemma ex_long_augment:
  "augment_segments [ex_long] ex_long_nodes [''m'' \<mapsto> ''node_0000''] [''m'' \<mapsto> ''node_0001''] = Inr [ex_long_graph]"
  by (simp add: augment_segments_def augment_segment_def ex_long_def ex_long_nodes_def
      ex_long_graph_def py_div_def py_max_def py_round_def round_half_even_def compute_length_def
      leg_length_def px_def pz_def sqrt_40000 SPAWN_RATE_THRESHOLD_def SPEED_RATIO_THRESHOLD_def
      LENGTH_THRESHOLD_def Let_def segment.extend_def adj_segment.fields_def)

theorem is_major_plain_or_witness:
  "augment_segments [ex_long] ex_long_nodes [''m'' \<mapsto> ''node_0000''] [''m'' \<mapsto> ''node_0001''] = Inr [ex_long_graph] \<and>
   py_max (spawnRates ex_long) = Inr 0.05 \<and> speedRatio ex_long_graph = 0.10 \<and>
   lengthMeters ex_long_graph = 200 \<and> isMajor ex_long_graph \<and>
   \<not> (0.30 < (0.05::real)) \<and> \<not> 0.50 < speedRatio ex_long_graph \<and> 150 < lengthMeters ex_long_graph"
proof -
  have i: "(0::nat) < length [ex_long]" by simp
  from is_major_plain_or[OF ex_long_augment i] obtain max_spawn where
    m: "py_max (spawnRates ex_long) = Inr max_spawn" and
    iff: "isMajor ex_long_graph \<longleftrightarrow>
            0.30 < max_spawn \<or> 0.50 < speedRatio ex_long_graph \<or> 150 < lengthMeters ex_long_graph"
    by auto
  have m': "py_max (spawnRates ex_long) = Inr 0.05"
    by (simp add: ex_long_def py_max_def segment.extend_def)
  have v: "speedRatio ex_long_graph = 0.10" "lengthMeters ex_long_graph = 200"
    by (simp_all add: ex_long_graph_def)
  from m m' have "max_spawn = 0.05" by simp
  with iff v have "isMajor ex_long_graph" by simp
  then show ?thesis using ex_long_augment m' v by simp
qed

subsection \<open>Union-find\<close>

lemma rep_of_functional: "rep_of par x r \<Longrightarrow> rep_of par x r' \<Longrightarrow> r = r'"
proof (induction arbitrary: r' rule: rep_of.induct)
  case (rep_root x)
  from rep_root.prems rep_root.hyps show ?case by (cases rule: rep_of.cases) auto
next
  case (rep_step x p r)
  from rep_step.prems rep_step.hyps(1,2) have "rep_of par p r'"
    by (cases rule: rep_of.cases) auto
  then show ?case by (rule rep_step.IH)
qed

lemma rep_of_is_root: "rep_of par x r \<Longrightarrow> par r = Some r"
  by (induction rule: rep_of.induct) auto

lemma rep_of_dom: "rep_of par x r \<Longrightarrow> x \<in> dom par \<and> r \<in> dom par"
  by (induction rule: rep_of.induct) auto

lemma rep_of_root_self: "par r = Some r \<Longrightarrow> rep_of par r s \<longleftrightarrow> s = r"
  using rep_of_functional rep_root by metis

lemma rep_of_rank:
  assumes "uf_inv uf" and "rep_of (parent uf) x r"
  shows "x = r \<or> the (rank uf x) < the (rank uf r)"
  using assms(2)
proof (induction rule: rep_of.induct)
  case (rep_root x)
  show ?case by simp
next
  case (rep_step x p r)
  from assms(1) rep_step.hyps(1,2) have "the (rank uf x) < the (rank uf p)"
    by (auto simp: uf_inv_def)
  with rep_step.IH show ?case by auto
qed

lemma rep_of_total:
  assumes "uf_inv uf" and "x \<in> dom (parent uf)"
  shows "\<exists>r. rep_of (parent uf) x r"
  using assms(2)
proof (induction "Max ((\<lambda>y. the (rank uf y)) ` dom (parent uf)) - the (rank uf x)"
    arbitrary: x rule: less_induct)
  case less
  let ?B = "Max ((\<lambda>y. the (rank uf y)) ` dom (parent uf))"
  from less.prems obtain p where p: "parent uf x = Some p" by auto
  show ?case
  proof (cases "p = x")
    case True
    with p show ?thesis by (auto intro: rep_root)
  next
    case False
    from assms(1) p have pd: "p \<in> dom (parent uf)" by (auto simp: uf_inv_def)
    from assms(1) p False have lt: "the (rank uf x) < the (rank uf p)" by (auto simp: uf_inv_def)
    have "finite ((\<lambda>y. the (rank uf y)) ` dom (parent uf))" using assms(1) by (simp add: uf_inv_def)
    then have "the (rank uf p) \<le> ?B" using pd by (intro Max_ge) auto
    with lt have "?B - the (rank uf p) < ?B - the (rank uf x)" by simp
    from less.hyps[OF this pd] obtain r where "rep_of (parent uf) p r" by blast
    with p False show ?thesis by (auto intro: rep_step)
  qed
qed

text \<open>Path compression: pointing a node at its representative changes no representative.\<close>

lemma rep_of_compress_fwd:
  assumes x: "rep_of par x r"
  shows "rep_of par y s \<Longrightarrow> rep_of (par(x \<mapsto> r)) y s"
proof (induction rule: rep_of.induct)
  case (rep_root y)
  show ?case
  proof (cases "y = x")
    case True
    with rep_root x have "r = x" using rep_of_root_self by blast
    with True show ?thesis by (auto intro: rep_of.rep_root)
  next
    case False
    with rep_root show ?thesis by (auto intro: rep_of.rep_root)
  qed
next
  case (rep_step y p s)
  show ?case
  proof (cases "y = x")
    case False
    with rep_step show ?thesis by (auto intro: rep_of.rep_step)
  next
    case True
    from rep_step.hyps have "rep_of par y s" by (auto intro: rep_of.rep_step)
    with True x have sr: "s = r" using rep_of_functional by blast
    from x have rr: "par r = Some r" by (rule rep_of_is_root)
    have "r \<noteq> x" using rr rep_step.hyps(1,2) True by auto
    then have "rep_of (par(x \<mapsto> r)) r r" using rr by (auto intro: rep_of.rep_root)
    with \<open>r \<noteq> x\<close> have "rep_of (par(x \<mapsto> r)) x r"
      by (intro rep_of.rep_step[of _ x r]) simp_all
    with True sr show ?thesis by blast
  qed
qed

lemma rep_of_compress_bwd:
  assumes x: "rep_of par x r"
  shows "rep_of (par(x \<mapsto> r)) y s \<Longrightarrow> rep_of par y s"
proof (induction rule: rep_of.induct)
  case (rep_root y)
  show ?case
  proof (cases "y = x")
    case True
    with rep_root have "r = x" by simp
    with x True show ?thesis by simp
  next
    case False
    with rep_root show ?thesis by (auto intro: rep_of.rep_root)
  qed
next
  case (rep_step y p s)
  show ?case
  proof (cases "y = x")
    case False
    with rep_step show ?thesis by (auto intro: rep_of.rep_step)
  next
    case True
    with rep_step.hyps(1) have "p = r" by simp
    with rep_step.IH have "rep_of par r s" by simp
    moreover from x have "par r = Some r" by (rule rep_of_is_root)
    ultimately have "s = r" using rep_of_root_self by blast
    with x True show ?thesis by simp
  qed
qed

lemma rep_of_compress: "rep_of par x r \<Longrightarrow> rep_of (par(x \<mapsto> r)) y s \<longleftrightarrow> rep_of par y s"
  using rep_of_compress_fwd rep_of_compress_bwd by blast

lemma uf_find_correct:
  assumes "uf_inv uf" and "rep_of (parent uf) x r"
  shows "\<exists>uf'. uf_find uf x = Some (Inr (r, uf')) \<and> uf_inv uf' \<and>
           dom (parent uf') = dom (parent uf) \<and> rank uf' = rank uf \<and>
           (\<forall>y s. rep_of (parent uf') y s \<longleftrightarrow> rep_of (parent uf) y s)"
  using assms(2)
proof (induction rule: rep_of.induct)
  case (rep_root x)
  then have "uf_find uf x = Some (Inr (x, uf))" by (subst uf_find.simps) simp
  with assms(1) show ?case by auto
next
  case (rep_step x p r)
  from rep_step.IH obtain uf1 where uf1: "uf_find uf p = Some (Inr (r, uf1))" "uf_inv uf1"
    "dom (parent uf1) = dom (parent uf)" "rank uf1 = rank uf"
    "\<forall>y s. rep_of (parent uf1) y s \<longleftrightarrow> rep_of (parent uf) y s" by blast
  let ?uf' = "uf1\<lparr>parent := (parent uf1)(x \<mapsto> r)\<rparr>"
  have find: "uf_find uf x = Some (Inr (r, ?uf'))"
    using rep_step.hyps(1,2) uf1(1) by (subst uf_find.simps) simp
  have xr: "rep_of (parent uf) x r" using rep_step.hyps by (auto intro: rep_of.rep_step)
  then have xr1: "rep_of (parent uf1) x r" using uf1(5) by simp
  have xd: "x \<in> dom (parent uf1)" using xr1 rep_of_dom by blast
  have rd: "r \<in> dom (parent uf1)" using xr1 rep_of_dom by blast
  have rk: "x = r \<or> the (rank uf1 x) < the (rank uf1 r)"
    using rep_of_rank[OF uf1(2) xr1] .
  have dom': "dom (parent ?uf') = dom (parent uf)" using xd uf1(3) by auto
  have inv': "uf_inv ?uf'"
    unfolding uf_inv_def
  proof (intro conjI allI impI)
    show "finite (dom (parent ?uf'))" using dom' assms(1) by (simp add: uf_inv_def)
    show "dom (rank ?uf') = dom (parent ?uf')" using dom' uf1(4) assms(1) by (simp add: uf_inv_def)
  next
    fix y q assume "parent ?uf' y = Some q"
    then show "q \<in> dom (parent ?uf')"
      using uf1(2) rd xd by (cases "y = x") (auto simp: uf_inv_def)
  next
    fix y q assume "parent ?uf' y = Some q" "q \<noteq> y"
    then show "the (rank ?uf' y) < the (rank ?uf' q)"
      using uf1(2) rk by (cases "y = x") (auto simp: uf_inv_def)
  qed
  have "\<forall>y s. rep_of (parent ?uf') y s \<longleftrightarrow> rep_of (parent uf) y s"
    using rep_of_compress[OF xr1] uf1(5) by simp
  with find inv' dom' uf1(4) show ?case by auto
qed

lemma uf_find_total:
  assumes "uf_inv uf" and "x \<in> dom (parent uf)"
  shows "\<exists>r uf'. uf_find uf x = Some (Inr (r, uf')) \<and> rep_of (parent uf) x r \<and> uf_inv uf' \<and>
           dom (parent uf') = dom (parent uf) \<and> rank uf' = rank uf \<and>
           (\<forall>y s. rep_of (parent uf') y s \<longleftrightarrow> rep_of (parent uf) y s)"
proof -
  from rep_of_total[OF assms] obtain r where r: "rep_of (parent uf) x r" by blast
  from uf_find_correct[OF assms(1) r] r show ?thesis by blast
qed

lemma rep_of_link:
  assumes hi: "par hi = Some hi" and lo: "par lo = Some lo" and ne: "hi \<noteq> lo"
  shows "rep_of par y s \<Longrightarrow>
         (s = lo \<longrightarrow> rep_of (par(lo \<mapsto> hi)) y hi) \<and> (s \<noteq> lo \<longrightarrow> rep_of (par(lo \<mapsto> hi)) y s)"
proof (induction rule: rep_of.induct)
  case (rep_root y)
  have hh: "rep_of (par(lo \<mapsto> hi)) hi hi" using hi ne by (intro rep_of.rep_root) simp
  have "rep_of (par(lo \<mapsto> hi)) lo hi"
    using hh ne by (intro rep_of.rep_step[of _ lo hi]) simp_all
  moreover have "rep_of (par(lo \<mapsto> hi)) y y" if "y \<noteq> lo"
    using that rep_root by (intro rep_of.rep_root) simp
  ultimately show ?case by blast
next
  case (rep_step y p s)
  from rep_step.hyps(1,2) lo have "y \<noteq> lo" by auto
  with rep_step.hyps(1) have "(par(lo \<mapsto> hi)) y = Some p" by simp
  with rep_step.hyps(2) rep_step.IH show ?case by (blast intro: rep_of.rep_step)
qed

lemma same_set_link:
  assumes hi: "par hi = Some hi" and lo: "par lo = Some lo" and ne: "hi \<noteq> lo"
  shows "same_set (par(lo \<mapsto> hi)) hi lo \<and> same_set (par(lo \<mapsto> hi)) lo hi \<and>
         (\<forall>u v. same_set par u v \<longrightarrow> same_set (par(lo \<mapsto> hi)) u v)"
proof -
  note link = rep_of_link[OF hi lo ne]
  from link[OF rep_root[of par hi, OF hi]] ne have h: "rep_of (par(lo \<mapsto> hi)) hi hi" by blast
  from link[OF rep_root[of par lo, OF lo]] have l: "rep_of (par(lo \<mapsto> hi)) lo hi" by blast
  have "same_set (par(lo \<mapsto> hi)) u v" if "same_set par u v" for u v
  proof -
    from that obtain s where "rep_of par u s" "rep_of par v s" by (auto simp: same_set_def)
    from link[OF this(1)] link[OF this(2)] show ?thesis unfolding same_set_def by blast
  qed
  with h l show ?thesis unfolding same_set_def by blast
qed

lemma uf_inv_link:
  assumes inv: "uf_inv uf"
    and hi: "parent uf hi = Some hi" and lo: "parent uf lo = Some lo" and ne: "hi \<noteq> lo"
    and rk: "rank uf hi = Some a" "rank uf lo = Some b" "b \<le> a"
  shows "uf_inv (if a = b then uf\<lparr>parent := (parent uf)(lo \<mapsto> hi), rank := (rank uf)(hi \<mapsto> a + 1)\<rparr>
                 else uf\<lparr>parent := (parent uf)(lo \<mapsto> hi)\<rparr>)"
    (is "uf_inv ?uf'")
  unfolding uf_inv_def
proof (intro conjI allI impI)
  have d: "dom (parent ?uf') = dom (parent uf)" using lo by auto
  show "finite (dom (parent ?uf'))" using d inv by (simp add: uf_inv_def)
  have "hi \<in> dom (rank uf)" using rk(1) by auto
  then have "dom (rank ?uf') = dom (rank uf)" by auto
  then show "dom (rank ?uf') = dom (parent ?uf')" using d inv by (simp add: uf_inv_def)
next
  fix y q assume "parent ?uf' y = Some q"
  then show "q \<in> dom (parent ?uf')"
    using inv hi lo by (cases "y = lo") (auto simp: uf_inv_def split: if_splits)
next
  fix y q assume yq: "parent ?uf' y = Some q" "q \<noteq> y"
  have up: "the (rank uf z) \<le> the (rank ?uf' z)" for z using rk by auto
  show "the (rank ?uf' y) < the (rank ?uf' q)"
  proof (cases "y = lo")
    case True
    with yq have "q = hi" by (auto split: if_splits)
    with True ne rk show ?thesis by auto
  next
    case False
    with yq have p: "parent uf y = Some q" by (auto split: if_splits)
    with yq(2) hi have "y \<noteq> hi" by auto
    then have "the (rank ?uf' y) = the (rank uf y)" by auto
    moreover from inv p yq(2) have "the (rank uf y) < the (rank uf q)" by (auto simp: uf_inv_def)
    ultimately show ?thesis using up[of q] by linarith
  qed
qed

lemma uf_link_correct:
  assumes inv: "uf_inv uf" and rx: "parent uf rx = Some rx" and ry: "parent uf ry = Some ry"
  shows "\<exists>uf'. uf_link uf rx ry = Inr uf' \<and> uf_inv uf' \<and> dom (parent uf') = dom (parent uf) \<and>
           same_set (parent uf') rx ry \<and>
           (\<forall>u v. same_set (parent uf) u v \<longrightarrow> same_set (parent uf') u v)"
proof (cases "rx = ry")
  case True
  have "same_set (parent uf) rx ry" using True rx by (auto simp: same_set_def intro: rep_root)
  with True inv show ?thesis by (simp add: uf_link_def)
next
  case False
  from inv rx ry obtain a b where ab: "rank uf rx = Some a" "rank uf ry = Some b"
    by (metis domD domI uf_inv_def)
  show ?thesis
  proof (cases "a < b")
    case True
    let ?uf' = "uf\<lparr>parent := (parent uf)(rx \<mapsto> ry)\<rparr>"
    have l: "uf_link uf rx ry = Inr ?uf'"
      using False ab True by (simp add: uf_link_def)
    have "uf_inv ?uf'"
      using uf_inv_link[OF inv ry rx _ ab(2) ab(1)] False True by auto
    moreover have "dom (parent ?uf') = dom (parent uf)" using rx by auto
    moreover note same_set_link[OF ry rx, of] False
    ultimately show ?thesis using l by auto
  next
    case ge: False
    let ?uf' = "if a = b then uf\<lparr>parent := (parent uf)(ry \<mapsto> rx), rank := (rank uf)(rx \<mapsto> a + 1)\<rparr>
                else uf\<lparr>parent := (parent uf)(ry \<mapsto> rx)\<rparr>"
    have l: "uf_link uf rx ry = Inr ?uf'"
      using False ab ge by (simp add: uf_link_def)
    have "uf_inv ?uf'"
      using uf_inv_link[OF inv rx ry False ab] ge by auto
    moreover have "dom (parent ?uf') = dom (parent uf)" using ry by auto
    moreover have "parent ?uf' = (parent uf)(ry \<mapsto> rx)" by simp
    moreover note same_set_link[OF rx ry False]
    ultimately show ?thesis using l by auto
  qed
qed

lemma same_set_cong:
  "(\<forall>y s. rep_of par' y s \<longleftrightarrow> rep_of par y s) \<Longrightarrow> same_set par' u v \<longleftrightarrow> same_set par u v"
  by (simp add: same_set_def)

lemma uf_union_correct:
  assumes inv: "uf_inv uf" and x: "x \<in> dom (parent uf)" and y: "y \<in> dom (parent uf)"
  shows "\<exists>uf'. uf_union uf x y = Some (Inr uf') \<and> uf_inv uf' \<and> dom (parent uf') = dom (parent uf) \<and>
           same_set (parent uf') x y \<and>
           (\<forall>u v. same_set (parent uf) u v \<longrightarrow> same_set (parent uf') u v)"
proof -
  from uf_find_total[OF inv x] obtain rx uf1 where f1: "uf_find uf x = Some (Inr (rx, uf1))"
    "rep_of (parent uf) x rx" "uf_inv uf1" "dom (parent uf1) = dom (parent uf)"
    "\<forall>y s. rep_of (parent uf1) y s \<longleftrightarrow> rep_of (parent uf) y s" by blast
  from y f1(4) have "y \<in> dom (parent uf1)" by simp
  from uf_find_total[OF f1(3) this] obtain ry uf2 where f2: "uf_find uf1 y = Some (Inr (ry, uf2))"
    "rep_of (parent uf1) y ry" "uf_inv uf2" "dom (parent uf2) = dom (parent uf1)"
    "\<forall>y s. rep_of (parent uf2) y s \<longleftrightarrow> rep_of (parent uf1) y s" by blast
  have r2: "\<forall>y s. rep_of (parent uf2) y s \<longleftrightarrow> rep_of (parent uf) y s" using f1(5) f2(5) by simp
  have xr: "rep_of (parent uf2) x rx" and yr: "rep_of (parent uf2) y ry"
    using f1(2) f2(2) f1(5) f2(5) by auto
  from xr yr have roots: "parent uf2 rx = Some rx" "parent uf2 ry = Some ry"
    by (auto dest: rep_of_is_root)
  from uf_link_correct[OF f2(3) roots] obtain uf' where l: "uf_link uf2 rx ry = Inr uf'"
    "uf_inv uf'" "dom (parent uf') = dom (parent uf2)" "same_set (parent uf') rx ry"
    "\<forall>u v. same_set (parent uf2) u v \<longrightarrow> same_set (parent uf') u v" by blast
  have u: "uf_union uf x y = Some (Inr uf')"
    using f1(1) f2(1) l(1) by (simp add: uf_union_def)
  have mono: "\<forall>u v. same_set (parent uf) u v \<longrightarrow> same_set (parent uf') u v"
    using l(5) same_set_cong[OF r2] by blast
  have "same_set (parent uf2) x rx" "same_set (parent uf2) ry y"
    using xr yr roots by (auto simp: same_set_def intro: rep_root)
  with l(5) have a: "same_set (parent uf') x rx" "same_set (parent uf') ry y" by auto
  have trans: "same_set p u v \<Longrightarrow> same_set p v w \<Longrightarrow> same_set p u w" for p u v w
    unfolding same_set_def using rep_of_functional by blast
  have "same_set (parent uf') x y" using trans[OF trans[OF a(1) l(4)] a(2)] .
  with u l(2,3) f1(4) f2(4) mono show ?thesis by auto
qed

subsection \<open>Endpoint clustering\<close>

lemma bindE_Some_Inr_iff:
  "bindE m f = Some (Inr b) \<longleftrightarrow> (\<exists>a. m = Some (Inr a) \<and> f a = Some (Inr b))"
proof (cases m)
  case None
  then show ?thesis by simp
next
  case (Some r)
  then show ?thesis by (cases r) auto
qed

lemma foldE_prefix_inv:
  assumes "I [] s"
    and "\<And>ys x s. I ys s \<Longrightarrow> x \<in> set xs \<Longrightarrow> \<exists>s'. f x s = Some (Inr s') \<and> I (ys @ [x]) s'"
  shows "\<exists>s'. foldE f xs s = Some (Inr s') \<and> I xs s'"
  using assms
proof (induction xs arbitrary: s I)
  case Nil
  then show ?case by simp
next
  case (Cons x xs)
  from Cons.prems(2)[OF Cons.prems(1), of x] obtain s1 where s1: "f x s = Some (Inr s1)" "I [x] s1"
    by auto
  have "\<exists>s'. foldE f xs s1 = Some (Inr s') \<and> (\<lambda>ys. I (x # ys)) xs s'"
  proof (rule Cons.IH)
    show "I [x] s1" by (rule s1(2))
    fix ys y t assume "I (x # ys) t" "y \<in> set xs"
    then show "\<exists>s'. f y t = Some (Inr s') \<and> I (x # ys @ [y]) s'"
      using Cons.prems(2)[of "x # ys" t y] by auto
  qed
  with s1(1) show ?case by auto
qed

lemma foldR_prefix_inv:
  assumes "I [] s"
    and "\<And>ys x s. I ys s \<Longrightarrow> x \<in> set xs \<Longrightarrow> \<exists>s'. f x s = Inr s' \<and> I (ys @ [x]) s'"
  shows "\<exists>s'. foldR f xs s = Inr s' \<and> I xs s'"
  using assms
proof (induction xs arbitrary: s I)
  case Nil
  then show ?case by simp
next
  case (Cons x xs)
  from Cons.prems(2)[OF Cons.prems(1), of x] obtain s1 where s1: "f x s = Inr s1" "I [x] s1"
    by auto
  have "\<exists>s'. foldR f xs s1 = Inr s' \<and> (\<lambda>ys. I (x # ys)) xs s'"
  proof (rule Cons.IH)
    show "I [x] s1" by (rule s1(2))
    fix ys y t assume "I (x # ys) t" "y \<in> set xs"
    then show "\<exists>s'. f y t = Inr s' \<and> I (x # ys @ [y]) s'"
      using Cons.prems(2)[of "x # ys" t y] by auto
  qed
  with s1(1) show ?case by auto
qed

text \<open>The sets the clustering starts from.\<close>

lemma uf_inv_empty: "uf_inv uf_empty"
  by (simp add: uf_inv_def uf_empty_def)

lemma make_set_inv:
  "uf_inv uf \<Longrightarrow> uf_inv (make_set x uf) \<and> dom (parent (make_set x uf)) = insert x (dom (parent uf))"
  by (auto simp: uf_inv_def make_set_def)

lemma make_sets_inv:
  "uf_inv uf \<Longrightarrow> uf_inv (fold make_set xs uf) \<and>
     dom (parent (fold make_set xs uf)) = set xs \<union> dom (parent uf)"
proof (induction xs arbitrary: uf)
  case Nil
  then show ?case by simp
next
  case (Cons x xs)
  from make_set_inv[OF Cons.prems, of x] Cons.IH[of "make_set x uf"] show ?case by auto
qed

text \<open>Sharing a representative is an equivalence on the elements of the structure.\<close>

lemma same_set_refl: "uf_inv uf \<Longrightarrow> x \<in> dom (parent uf) \<Longrightarrow> same_set (parent uf) x x"
  using rep_of_total by (auto simp: same_set_def)

lemma same_set_sym: "same_set par x y \<Longrightarrow> same_set par y x"
  by (auto simp: same_set_def)

lemma same_set_trans: "same_set par x y \<Longrightarrow> same_set par y z \<Longrightarrow> same_set par x z"
  unfolding same_set_def using rep_of_functional by blast

lemma distance_sym: "distance p q = distance q p"
  by (simp add: distance_def Let_def power2_commute[symmetric] algebra_simps)

lemma merge_pair_step:
  assumes m: "merged_upto eps ids pairs uf" and i: "i < length ids" and j: "j < length ids"
  shows "\<exists>uf'. merge_pair eps ids i j uf = Some (Inr uf') \<and> merged_upto eps ids (insert (i, j) pairs) uf'"
proof (cases "distance (eps ! i) (eps ! j) < SNAP_RADIUS")
  case False
  with m show ?thesis by (auto simp: merge_pair_def merged_upto_def)
next
  case True
  from m have inv: "uf_inv uf" and d: "dom (parent uf) = set ids" by (auto simp: merged_upto_def)
  from i j d have "ids ! i \<in> dom (parent uf)" "ids ! j \<in> dom (parent uf)" by auto
  from uf_union_correct[OF inv this] obtain uf' where u:
    "uf_union uf (ids ! i) (ids ! j) = Some (Inr uf')" "uf_inv uf'"
    "dom (parent uf') = dom (parent uf)" "same_set (parent uf') (ids ! i) (ids ! j)"
    "\<forall>u v. same_set (parent uf) u v \<longrightarrow> same_set (parent uf') u v" by blast
  have "merged_upto eps ids (insert (i, j) pairs) uf'"
    using m u(2-5) d unfolding merged_upto_def by auto
  with u(1) True show ?thesis by (simp add: merge_pair_def)
qed

lemma merge_inner_loop:
  assumes m: "merged_upto eps ids pairs uf" and i: "i < length ids" and js: "\<forall>j\<in>set js. j < length ids"
  shows "\<exists>uf'. foldE (merge_pair eps ids i) js uf = Some (Inr uf') \<and>
           merged_upto eps ids (pairs \<union> {i} \<times> set js) uf'"
proof -
  have "\<exists>uf'. foldE (merge_pair eps ids i) js uf = Some (Inr uf') \<and>
          (\<lambda>ys s. merged_upto eps ids (pairs \<union> {i} \<times> set ys) s) js uf'"
  proof (rule foldE_prefix_inv)
    show "merged_upto eps ids (pairs \<union> {i} \<times> set []) uf" using m by simp
    fix ys j s assume a: "merged_upto eps ids (pairs \<union> {i} \<times> set ys) s" "j \<in> set js"
    with js have "j < length ids" by auto
    from merge_pair_step[OF a(1) i this]
    show "\<exists>s'. merge_pair eps ids i j s = Some (Inr s') \<and>
            merged_upto eps ids (pairs \<union> {i} \<times> set (ys @ [j])) s'"
      by (auto simp: insert_commute Un_commute)
  qed
  then show ?thesis by simp
qed

lemma merge_endpoints_correct:
  assumes inv: "uf_inv uf" and d: "dom (parent uf) = set ids" and len: "length ids = length eps"
  shows "\<exists>uf'. merge_endpoints eps ids uf = Some (Inr uf') \<and>
           merged_upto eps ids {(i, j). i < j \<and> j < length eps} uf'"
proof -
  let ?n = "length eps"
  have "\<exists>uf'. foldE (\<lambda>i. foldE (merge_pair eps ids i) [i + 1..<?n]) [0..<?n] uf = Some (Inr uf') \<and>
          (\<lambda>ys s. merged_upto eps ids (\<Union>i\<in>set ys. {i} \<times> {i + 1..<?n}) s) [0..<?n] uf'"
  proof (rule foldE_prefix_inv)
    show "merged_upto eps ids (\<Union>i\<in>set []. {i} \<times> {i + 1..<?n}) uf"
      using inv d by (simp add: merged_upto_def)
    fix ys i s
    assume a: "merged_upto eps ids (\<Union>i\<in>set ys. {i} \<times> {i + 1..<?n}) s" "i \<in> set [0..<?n]"
    then have i: "i < length ids" using len by simp
    have js: "\<forall>j\<in>set [i + 1..<?n]. j < length ids" using len by simp
    from merge_inner_loop[OF a(1) i js]
    show "\<exists>s'. foldE (merge_pair eps ids i) [i + 1..<?n] s = Some (Inr s') \<and>
            merged_upto eps ids (\<Union>i\<in>set (ys @ [i]). {i} \<times> {i + 1..<?n}) s'"
      by (auto simp: Un_commute)
  qed
  moreover have "(\<Union>i\<in>set [0..<?n]. {i} \<times> {i + 1..<?n}) = {(i, j). i < j \<and> j < ?n}"
    by auto
  ultimately show ?thesis by (simp add: merge_endpoints_def)
qed

lemma merged_upto_all:
  assumes m: "merged_upto eps ids {(i, j). i < j \<and> j < length eps} uf" and len: "length ids = length eps"
    and i: "i < length eps" and j: "j < length eps"
    and near: "distance (eps ! i) (eps ! j) < SNAP_RADIUS"
  shows "same_set (parent uf) (ids ! i) (ids ! j)"
proof -
  from m have inv: "uf_inv uf" and d: "dom (parent uf) = set ids"
    and all: "\<And>a b. a < b \<Longrightarrow> b < length eps \<Longrightarrow> distance (eps ! a) (eps ! b) < SNAP_RADIUS \<Longrightarrow>
                same_set (parent uf) (ids ! a) (ids ! b)"
    by (auto simp: merged_upto_def)
  consider "i < j" | "j < i" | "i = j" by linarith
  then show ?thesis
  proof cases
    case 1
    then show ?thesis using all j near by simp
  next
    case 2
    then have "same_set (parent uf) (ids ! j) (ids ! i)"
      using all[of j i] i near by (simp add: distance_sym)
    then show ?thesis by (rule same_set_sym)
  next
    case 3
    have "ids ! i \<in> dom (parent uf)" using d i len by simp
    with 3 show ?thesis using same_set_refl[OF inv] by simp
  qed
qed

lemma add_to_cluster_step:
  assumes inv: "uf_inv u" and ep: "ep_id \<in> dom (parent u)"
    and same: "\<forall>y s. rep_of (parent u) y s \<longleftrightarrow> rep_of par y s"
    and cl: "clusters_of par ys cl"
  shows "\<exists>u' cl'. add_to_cluster (i, ep_id) (u, cl) = Some (Inr (u', cl')) \<and> uf_inv u' \<and>
           dom (parent u') = dom (parent u) \<and>
           (\<forall>y s. rep_of (parent u') y s \<longleftrightarrow> rep_of par y s) \<and>
           clusters_of par (ys @ [(i, ep_id)]) cl'"
proof -
  from uf_find_total[OF inv ep] obtain rt u' where f: "uf_find u ep_id = Some (Inr (rt, u'))"
    "rep_of (parent u) ep_id rt" "uf_inv u'" "dom (parent u') = dom (parent u)"
    "\<forall>y s. rep_of (parent u') y s \<longleftrightarrow> rep_of (parent u) y s" by blast
  let ?old = "case map_of cl rt of None \<Rightarrow> [] | Some l \<Rightarrow> l"
  let ?cl' = "AList.update rt (?old @ [i]) cl"
  have step: "add_to_cluster (i, ep_id) (u, cl) = Some (Inr (u', ?cl'))"
    using f(1) by (simp add: add_to_cluster_def)
  from f(2) same have rt: "rep_of par ep_id rt" by simp
  have old: "?old = map fst (filter (\<lambda>(i, x). rep_of par x rt) ys)"
    using cl by (auto simp: clusters_of_def Let_def split: option.splits if_splits)
  have "clusters_of par (ys @ [(i, ep_id)]) ?cl'"
    unfolding clusters_of_def
  proof (intro conjI allI)
    show "distinct (map fst ?cl')" using cl by (simp add: clusters_of_def distinct_update)
    fix r
    show "map_of ?cl' r =
        (let l = map fst (filter (\<lambda>(i, x). rep_of par x r) (ys @ [(i, ep_id)]))
         in if l = [] then None else Some l)"
    proof (cases "r = rt")
      case True
      then show ?thesis using rt old by (simp add: update_conv' Let_def)
    next
      case False
      with rt have "\<not> rep_of par ep_id r" using rep_of_functional by blast
      with False show ?thesis using cl by (simp add: update_conv' clusters_of_def Let_def)
    qed
  qed
  with step f(3,4,5) same show ?thesis by auto
qed

lemma group_clusters_correct:
  assumes inv: "uf_inv uf" and d: "dom (parent uf) = set ids"
  shows "\<exists>uf' cl. group_clusters ids uf = Some (Inr (uf', cl)) \<and>
           clusters_of (parent uf) (zip [0..<length ids] ids) cl"
proof -
  let ?I = "\<lambda>ys (s :: union_find \<times> (string \<times> nat list) list).
      uf_inv (fst s) \<and> dom (parent (fst s)) = set ids \<and>
      (\<forall>y r. rep_of (parent (fst s)) y r \<longleftrightarrow> rep_of (parent uf) y r) \<and>
      clusters_of (parent uf) ys (snd s)"
  have "\<exists>s'. foldE add_to_cluster (zip [0..<length ids] ids) (uf, []) = Some (Inr s') \<and>
          ?I (zip [0..<length ids] ids) s'"
  proof (rule foldE_prefix_inv)
    show "?I [] (uf, [])" using inv d by (simp add: clusters_of_def)
    fix ys x s
    assume a: "?I ys s" "x \<in> set (zip [0..<length ids] ids)"
    obtain i ep_id where x: "x = (i, ep_id)" by (cases x)
    obtain u cl where s: "s = (u, cl)" by (cases s)
    from a(2) x have "ep_id \<in> set ids" by (auto dest: set_zip_rightD)
    with a(1) s have ep: "ep_id \<in> dom (parent u)" by simp
    from a(1) s add_to_cluster_step[OF _ ep, of "parent uf" ys cl i]
    show "\<exists>s'. add_to_cluster x s = Some (Inr s') \<and> ?I (ys @ [x]) s'"
      unfolding x s by fastforce
  qed
  then show ?thesis by (auto simp: group_clusters_def)
qed

lemma digit_val_digit_char: "d < 10 \<Longrightarrow> digit_val (digit_char d) = d"
proof -
  assume "d < 10"
  then consider "d = 0" | "d = 1" | "d = 2" | "d = 3" | "d = 4" | "d = 5" | "d = 6" | "d = 7"
    | "d = 8" | "d = 9" by atomize_elim presburger
  then show ?thesis by cases (simp_all add: digit_val_def digit_char_def)
qed

lemma decimal_val_snoc: "decimal_val (s @ [c]) = 10 * decimal_val s + digit_val c"
  by (simp add: decimal_val_def)

lemma decimal_val_str_nat: "decimal_val (str_nat n) = n"
proof (induction n rule: str_nat.induct)
  case (1 n)
  show ?case
  proof (cases "n < 10")
    case True
    then have "str_nat n = [digit_char n]" by (simp add: str_nat.simps[of n])
    then show ?thesis using True by (simp add: decimal_val_def digit_val_digit_char)
  next
    case False
    then have s: "str_nat n = str_nat (n div 10) @ [digit_char (n mod 10)]"
      by (simp add: str_nat.simps[of n])
    have "decimal_val (str_nat n) = 10 * decimal_val (str_nat (n div 10)) + digit_val (digit_char (n mod 10))"
      unfolding s by (rule decimal_val_snoc)
    also have "\<dots> = 10 * (n div 10) + n mod 10"
      using 1[OF False] by (simp add: digit_val_digit_char)
    finally show ?thesis by simp
  qed
qed

lemma str_nat_inj: "str_nat m = str_nat n \<Longrightarrow> m = n"
  by (metis decimal_val_str_nat)

lemma decimal_val_zeros: "decimal_val (replicate k (CHR ''0'') @ s) = decimal_val s"
proof -
  have "foldl (\<lambda>a c. 10 * a + digit_val c) 0 (replicate k (CHR ''0'')) = 0"
    by (induction k) (simp_all add: digit_val_def)
  then show ?thesis by (simp add: decimal_val_def)
qed

lemma str_nat_04_inj: "str_nat_04 m = str_nat_04 n \<Longrightarrow> m = n"
proof -
  assume "str_nat_04 m = str_nat_04 n"
  then have "decimal_val (str_nat_04 m) = decimal_val (str_nat_04 n)" by simp
  then show "m = n" by (simp add: str_nat_04_def decimal_val_zeros decimal_val_str_nat)
qed

lemma node_name_inj: "node_name m = node_name n \<longleftrightarrow> m = n"
  using str_nat_04_inj by (auto simp: node_name_def)

lemma distinct_endpoint_ids: "distinct (map str_nat [0..<n])"
proof -
  have "inj_on str_nat (set [0..<n])" by (rule inj_onI) (rule str_nat_inj)
  then show ?thesis by (simp add: distinct_map)
qed

text \<open>The endpoint list: two entries per segment, the start first.\<close>

lemma collect_endpoints_Cons:
  "collect_endpoints (seg # segs) =
     (case points seg of
        [] \<Rightarrow> Inl IndexError
      | p # ps \<Rightarrow>
          bindR (collect_endpoints segs) (\<lambda>eps.
            Inr (\<lparr>ep_x = px p, ep_z = pz p, segment_id = seg_id seg, is_start = True\<rparr> #
                 \<lparr>ep_x = px (last (p # ps)), ep_z = pz (last (p # ps)), segment_id = seg_id seg,
                  is_start = False\<rparr> # eps)))"
  by (cases "points seg"; cases "mapR segment_endpoints segs")
    (simp_all add: collect_endpoints_def segment_endpoints_def)

lemma collect_endpoints_Inr:
  "collect_endpoints segs = Inr eps \<Longrightarrow>
     length eps = 2 * length segs \<and>
     (\<forall>k<length segs. points (segs ! k) \<noteq> [] \<and>
        eps ! (2 * k) = \<lparr>ep_x = px (hd (points (segs ! k))), ep_z = pz (hd (points (segs ! k))),
                          segment_id = seg_id (segs ! k), is_start = True\<rparr> \<and>
        eps ! (2 * k + 1) = \<lparr>ep_x = px (last (points (segs ! k))), ep_z = pz (last (points (segs ! k))),
                              segment_id = seg_id (segs ! k), is_start = False\<rparr>)"
proof (induction segs arbitrary: eps)
  case Nil
  then show ?case by (simp add: collect_endpoints_def)
next
  case (Cons seg segs)
  from Cons.prems obtain p ps eps' where p: "points seg = p # ps"
    and e': "collect_endpoints segs = Inr eps'"
    and e: "eps = \<lparr>ep_x = px p, ep_z = pz p, segment_id = seg_id seg, is_start = True\<rparr> #
                 \<lparr>ep_x = px (last (p # ps)), ep_z = pz (last (p # ps)), segment_id = seg_id seg,
                  is_start = False\<rparr> # eps'"
    by (auto simp: collect_endpoints_Cons bindR_Inr_iff split: list.splits)
  from Cons.IH[OF e'] have len: "length eps' = 2 * length segs" and
    nth: "\<forall>k<length segs. points (segs ! k) \<noteq> [] \<and>
        eps' ! (2 * k) = \<lparr>ep_x = px (hd (points (segs ! k))), ep_z = pz (hd (points (segs ! k))),
                          segment_id = seg_id (segs ! k), is_start = True\<rparr> \<and>
        eps' ! (2 * k + 1) = \<lparr>ep_x = px (last (points (segs ! k))), ep_z = pz (last (points (segs ! k))),
                              segment_id = seg_id (segs ! k), is_start = False\<rparr>" by auto
  show ?case
  proof (intro conjI allI impI)
    show "length eps = 2 * length (seg # segs)" using e len by simp
  next
    fix k assume k: "k < length (seg # segs)"
    show "points ((seg # segs) ! k) \<noteq> []" using k p nth by (cases k) auto
    show "eps ! (2 * k) = \<lparr>ep_x = px (hd (points ((seg # segs) ! k))),
             ep_z = pz (hd (points ((seg # segs) ! k))),
             segment_id = seg_id ((seg # segs) ! k), is_start = True\<rparr>"
      using k p nth e by (cases k) auto
    show "eps ! (2 * k + 1) = \<lparr>ep_x = px (last (points ((seg # segs) ! k))),
             ep_z = pz (last (points ((seg # segs) ! k))),
             segment_id = seg_id ((seg # segs) ! k), is_start = False\<rparr>"
      using k p nth e by (cases k) auto
  qed
qed

lemma collect_endpoints_total:
  "(\<forall>s\<in>set segs. points s \<noteq> []) \<Longrightarrow> \<exists>eps. collect_endpoints segs = Inr eps"
proof (induction segs)
  case Nil
  then show ?case by (simp add: collect_endpoints_def)
next
  case (Cons seg segs)
  then obtain eps where "collect_endpoints segs = Inr eps" by auto
  moreover from Cons.prems obtain p ps where "points seg = p # ps" by (cases "points seg") auto
  ultimately show ?case by (simp add: collect_endpoints_Cons)
qed

lemma collect_endpoints_error:
  "s \<in> set segs \<Longrightarrow> points s = [] \<Longrightarrow> collect_endpoints segs = Inl IndexError"
proof (induction segs)
  case Nil
  then show ?case by simp
next
  case (Cons seg segs)
  show ?case
  proof (cases "points seg")
    case Nil
    then show ?thesis by (simp add: collect_endpoints_Cons)
  next
    case (Cons p ps)
    with Cons.prems Cons.IH have "collect_endpoints segs = Inl IndexError" by auto
    with Cons show ?thesis by (simp add: collect_endpoints_Cons)
  qed
qed

lemma foldR_split_inv:
  assumes "I [] s"
    and "\<And>ys x zs s. xs = ys @ x # zs \<Longrightarrow> I ys s \<Longrightarrow> \<exists>s'. f x s = Inr s' \<and> I (ys @ [x]) s'"
  shows "\<exists>s'. foldR f xs s = Inr s' \<and> I xs s'"
  using assms
proof (induction xs arbitrary: s I)
  case Nil
  then show ?case by simp
next
  case (Cons x xs)
  from Cons.prems(2)[of "[]" x xs s] Cons.prems(1) obtain s1 where s1: "f x s = Inr s1" "I [x] s1"
    by auto
  have "\<exists>s'. foldR f xs s1 = Inr s' \<and> (\<lambda>ys. I (x # ys)) xs s'"
  proof (rule Cons.IH)
    show "I [x] s1" by (rule s1(2))
    fix ys y zs t assume "xs = ys @ y # zs" "I (x # ys) t"
    then show "\<exists>s'. f y t = Inr s' \<and> I (x # ys @ [y]) s'"
      using Cons.prems(2)[of "x # ys" y zs t] by auto
  qed
  with s1(1) show ?case by auto
qed

lemma assign_fold:
  "fold (assign_endpoint nid) es (node, sm, em) =
     (node\<lparr>outgoing := outgoing node @ map segment_id (filter is_start es),
           incoming := incoming node @ map segment_id (filter (\<lambda>e. \<not> is_start e) es)\<rparr>,
      (\<lambda>k. if k \<in> segment_id ` {e \<in> set es. is_start e} then Some nid else sm k),
      (\<lambda>k. if k \<in> segment_id ` {e \<in> set es. \<not> is_start e} then Some nid else em k))"
proof (induction es arbitrary: node sm em)
  case Nil
  show ?case by simp
next
  case (Cons e es)
  have unroll: "fold (assign_endpoint nid) (e # es) (node, sm, em) =
        fold (assign_endpoint nid) es (assign_endpoint nid e (node, sm, em))"
    by simp
  show ?case
  proof (cases "is_start e")
    case True
    then have "assign_endpoint nid e (node, sm, em) =
        (node\<lparr>outgoing := outgoing node @ [segment_id e]\<rparr>, sm(segment_id e \<mapsto> nid), em)"
      by (simp add: assign_endpoint_def)
    then show ?thesis
      unfolding unroll using True by (simp add: Cons.IH) (auto simp: fun_eq_iff)
  next
    case False
    then have "assign_endpoint nid e (node, sm, em) =
        (node\<lparr>incoming := incoming node @ [segment_id e]\<rparr>, sm, em(segment_id e \<mapsto> nid))"
      by (simp add: assign_endpoint_def)
    then show ?thesis
      unfolding unroll using False by (simp add: Cons.IH) (auto simp: fun_eq_iff)
  qed
qed

lemma make_node_eq:
  assumes "l \<noteq> []"
  shows "make_node b eps (c, l) (nodes, sm, em) =
     Inr (AList.update (node_name c) (cluster_node b eps c l) nodes,
          (\<lambda>k. if k \<in> segment_id ` {e \<in> set (map (\<lambda>i. eps ! i) l). is_start e}
                then Some (node_name c) else sm k),
          (\<lambda>k. if k \<in> segment_id ` {e \<in> set (map (\<lambda>i. eps ! i) l). \<not> is_start e}
                then Some (node_name c) else em k))"
  unfolding node_name_def cluster_node_def
  using assms by (simp add: make_node_def py_div_def Let_def assign_fold) (simp add: fun_eq_iff)

lemma update_fresh: "k \<notin> fst ` set al \<Longrightarrow> AList.update k v al = al @ [(k, v)]"
  by (induction al) auto

lemma build_nodes_correct:
  assumes ne: "\<forall>l\<in>set Ls. l \<noteq> []"
    and disj: "\<forall>c<length Ls. \<forall>c'<length Ls. c \<noteq> c' \<longrightarrow> set (Ls ! c) \<inter> set (Ls ! c') = {}"
  shows "\<exists>nodes sm em.
           foldR (make_node b eps) (zip [0..<length Ls] Ls) ([], Map.empty, Map.empty) = Inr (nodes, sm, em) \<and>
           nodes = map (\<lambda>(c, l). (node_name c, cluster_node b eps c l)) (zip [0..<length Ls] Ls) \<and>
           ((\<forall>i\<in>\<Union>(set ` set Ls). \<forall>j\<in>\<Union>(set ` set Ls).
                segment_id (eps ! i) = segment_id (eps ! j) \<and> is_start (eps ! i) = is_start (eps ! j)
                \<longrightarrow> i = j) \<longrightarrow>
            (\<forall>c<length Ls. \<forall>i\<in>set (Ls ! c). endpoint_node sm em (eps ! i) = Some (node_name c)))"
proof -
  let ?inj = "\<forall>i\<in>\<Union>(set ` set Ls). \<forall>j\<in>\<Union>(set ` set Ls).
                segment_id (eps ! i) = segment_id (eps ! j) \<and> is_start (eps ! i) = is_start (eps ! j)
                \<longrightarrow> i = j"
  let ?xs = "zip [0..<length Ls] Ls"
  let ?I = "\<lambda>ys (s :: (string \<times> road_node) list \<times> (string \<rightharpoonup> string) \<times> (string \<rightharpoonup> string)).
      fst s = map (\<lambda>(c, l). (node_name c, cluster_node b eps c l)) ys \<and>
      (?inj \<longrightarrow> (\<forall>c<length ys. \<forall>i\<in>set (Ls ! c).
          endpoint_node (fst (snd s)) (snd (snd s)) (eps ! i) = Some (node_name c)))"
  have "\<exists>s'. foldR (make_node b eps) ?xs ([], Map.empty, Map.empty) = Inr s' \<and> ?I ?xs s'"
  proof (rule foldR_split_inv)
    show "?I [] ([], Map.empty, Map.empty)" by simp
  next
    fix ys x zs and s :: "(string \<times> road_node) list \<times> (string \<rightharpoonup> string) \<times> (string \<rightharpoonup> string)"
    assume split: "?xs = ys @ x # zs" and I: "?I ys s"
    obtain nodes sm em where s: "s = (nodes, sm, em)" by (cases s)
    let ?k = "length ys"
    have klt: "?k < length Ls"
    proof -
      have "length ?xs = length (ys @ x # zs)" by (simp only: split)
      then show ?thesis by simp
    qed
    have x: "x = (?k, Ls ! ?k)"
    proof -
      have "(ys @ x # zs) ! ?k = x" by simp
      then have "?xs ! ?k = x" by (simp only: split)
      moreover have "?xs ! ?k = (?k, Ls ! ?k)" using klt by simp
      ultimately show ?thesis by simp
    qed
    have fst_ys: "fst ` set ys = {0..<?k}"
    proof -
      have "map fst ?xs = map fst ys @ fst x # map fst zs" unfolding split by simp
      then have "[0..<length Ls] = map fst ys @ fst x # map fst zs" by simp
      then have "take ?k [0..<length Ls] = map fst ys" by simp
      then have "map fst ys = [0..<?k]" using klt by simp
      then have "set (map fst ys) = {0..<?k}" by simp
      then show ?thesis by simp
    qed
    have lne: "Ls ! ?k \<noteq> []" using ne klt by simp
    let ?l = "Ls ! ?k"
    let ?sm' = "\<lambda>k. if k \<in> segment_id ` {e \<in> set (map (\<lambda>i. eps ! i) ?l). is_start e}
                then Some (node_name ?k) else sm k"
    let ?em' = "\<lambda>k. if k \<in> segment_id ` {e \<in> set (map (\<lambda>i. eps ! i) ?l). \<not> is_start e}
                then Some (node_name ?k) else em k"
    have fresh: "node_name ?k \<notin> fst ` set nodes"
    proof
      assume "node_name ?k \<in> fst ` set nodes"
      moreover have "fst ` set nodes = node_name ` fst ` set ys"
        using I s by (force simp: image_iff)
      ultimately obtain c where "c \<in> fst ` set ys" "node_name ?k = node_name c" by auto
      then show False using fst_ys by (simp add: node_name_inj)
    qed
    have step: "make_node b eps x s = Inr (nodes @ [(node_name ?k, cluster_node b eps ?k ?l)], ?sm', ?em')"
      unfolding x s make_node_eq[OF lne] using update_fresh[OF fresh] by simp
    have nodes': "nodes @ [(node_name ?k, cluster_node b eps ?k ?l)] =
        map (\<lambda>(c, l). (node_name c, cluster_node b eps c l)) (ys @ [x])"
      using I s x by simp
    have maps: "endpoint_node ?sm' ?em' (eps ! i) = Some (node_name c)"
      if inj: "?inj" and c: "c < length (ys @ [x])" and i: "i \<in> set (Ls ! c)" for c i
    proof (cases "c = ?k")
      case True
      with i show ?thesis by (auto simp: endpoint_node_def)
    next
      case False
      with c have clt: "c < ?k" by simp
      with I s i inj have old: "endpoint_node sm em (eps ! i) = Some (node_name c)" by simp
      have notin: "j \<in> set ?l \<Longrightarrow> segment_id (eps ! j) = segment_id (eps ! i) \<Longrightarrow>
                   is_start (eps ! j) = is_start (eps ! i) \<Longrightarrow> False" for j
      proof -
        assume j: "j \<in> set ?l" and e: "segment_id (eps ! j) = segment_id (eps ! i)"
          "is_start (eps ! j) = is_start (eps ! i)"
        have "Ls ! c \<in> set Ls" "Ls ! ?k \<in> set Ls" using klt clt by simp_all
        then have "i \<in> \<Union>(set ` set Ls)" "j \<in> \<Union>(set ` set Ls)"
          using i j by blast+
        with inj e have "i = j" by blast
        moreover have "set (Ls ! c) \<inter> set (Ls ! ?k) = {}"
          using disj klt clt by simp
        ultimately show False using i j by blast
      qed
      show ?thesis
      proof (cases "is_start (eps ! i)")
        case True
        have "segment_id (eps ! i) \<notin> segment_id ` {e \<in> set (map (\<lambda>i. eps ! i) ?l). is_start e}"
        proof
          assume "segment_id (eps ! i) \<in> segment_id ` {e \<in> set (map (\<lambda>i. eps ! i) ?l). is_start e}"
          then obtain j where "j \<in> set ?l" "is_start (eps ! j)"
            "segment_id (eps ! j) = segment_id (eps ! i)" by force
          with True notin[of j] show False by simp
        qed
        then have "?sm' (segment_id (eps ! i)) = sm (segment_id (eps ! i))" by simp
        with True old show ?thesis by (simp add: endpoint_node_def)
      next
        case False
        have "segment_id (eps ! i) \<notin> segment_id ` {e \<in> set (map (\<lambda>i. eps ! i) ?l). \<not> is_start e}"
        proof
          assume "segment_id (eps ! i) \<in> segment_id ` {e \<in> set (map (\<lambda>i. eps ! i) ?l). \<not> is_start e}"
          then obtain j where "j \<in> set ?l" "\<not> is_start (eps ! j)"
            "segment_id (eps ! j) = segment_id (eps ! i)" by force
          with False notin[of j] show False by simp
        qed
        then have "?em' (segment_id (eps ! i)) = em (segment_id (eps ! i))" by simp
        with False old show ?thesis by (simp add: endpoint_node_def)
      qed
    qed
    show "\<exists>s'. make_node b eps x s = Inr s' \<and> ?I (ys @ [x]) s'"
      using step nodes' maps by simp
  qed
  then show ?thesis by auto
qed

lemma filter_zip_upt:
  "length ids = n \<Longrightarrow>
   map fst (filter (\<lambda>(i, x). P x) (zip [0..<n] ids)) = filter (\<lambda>i. P (ids ! i)) [0..<n]"
proof (induction ids arbitrary: n rule: rev_induct)
  case Nil
  then show ?case by simp
next
  case (snoc x xs)
  then obtain m where n: "n = Suc m" and m: "length xs = m" by (cases n) auto
  have z: "zip [0..<Suc m] (xs @ [x]) = zip [0..<m] xs @ [(m, x)]"
    using m by simp
  have f: "filter (\<lambda>i. P ((xs @ [x]) ! i)) [0..<m] = filter (\<lambda>i. P (xs ! i)) [0..<m]"
    using m by (intro filter_cong) (auto simp: nth_append)
  show ?case
    unfolding n z using snoc.IH[OF m] m f by (simp add: nth_append)
qed

text \<open>The clusters partition the endpoint indices.\<close>

lemma clusters_partition:
  assumes inv: "uf_inv uf" and d: "dom (parent uf) = set ids"
    and cl: "clusters_of (parent uf) (zip [0..<length ids] ids) cl"
  shows "(\<forall>c<length cl. snd (cl ! c) =
            filter (\<lambda>i. rep_of (parent uf) (ids ! i) (fst (cl ! c))) [0..<length ids] \<and>
            snd (cl ! c) \<noteq> [])"
    and "\<forall>c<length cl. \<forall>c'<length cl. c \<noteq> c' \<longrightarrow> set (snd (cl ! c)) \<inter> set (snd (cl ! c')) = {}"
    and "\<forall>i<length ids. \<exists>c<length cl. i \<in> set (snd (cl ! c))"
proof -
  let ?par = "parent uf" and ?n = "length ids"
  from cl have dist: "distinct (map fst cl)" by (simp add: clusters_of_def)
  have lookup: "map_of cl r =
      (let l = filter (\<lambda>i. rep_of ?par (ids ! i) r) [0..<?n] in if l = [] then None else Some l)" for r
  proof -
    have eq: "map fst (filter (\<lambda>(i, x). rep_of ?par x r) (zip [0..<?n] ids)) =
              filter (\<lambda>i. rep_of ?par (ids ! i) r) [0..<?n]"
      by (rule filter_zip_upt) simp
    from cl have "map_of cl r =
        (let l = map fst (filter (\<lambda>(i, x). rep_of ?par x r) (zip [0..<?n] ids))
         in if l = [] then None else Some l)"
      unfolding clusters_of_def by blast
    then show ?thesis unfolding eq .
  qed
  have entry: "snd (cl ! c) = filter (\<lambda>i. rep_of ?par (ids ! i) (fst (cl ! c))) [0..<?n] \<and>
               snd (cl ! c) \<noteq> []" if c: "c < length cl" for c
  proof -
    have "cl ! c \<in> set cl" using c by simp
    then have "map_of cl (fst (cl ! c)) = Some (snd (cl ! c))"
      using dist by (metis map_of_is_SomeI prod.collapse)
    with lookup[of "fst (cl ! c)"] show ?thesis by (auto simp: Let_def split: if_splits)
  qed
  then show "\<forall>c<length cl. snd (cl ! c) =
            filter (\<lambda>i. rep_of ?par (ids ! i) (fst (cl ! c))) [0..<?n] \<and> snd (cl ! c) \<noteq> []"
    by blast
  show "\<forall>c<length cl. \<forall>c'<length cl. c \<noteq> c' \<longrightarrow> set (snd (cl ! c)) \<inter> set (snd (cl ! c')) = {}"
  proof (intro allI impI)
    fix c c' assume c: "c < length cl" "c' < length cl" "c \<noteq> c'"
    have ne: "fst (cl ! c) \<noteq> fst (cl ! c')"
      using dist c by (metis distinct_conv_nth length_map nth_map)
    show "set (snd (cl ! c)) \<inter> set (snd (cl ! c')) = {}"
    proof (rule ccontr)
      assume "set (snd (cl ! c)) \<inter> set (snd (cl ! c')) \<noteq> {}"
      then obtain i where "i \<in> set (snd (cl ! c))" "i \<in> set (snd (cl ! c'))" by blast
      with entry[OF c(1)] entry[OF c(2)] have "rep_of ?par (ids ! i) (fst (cl ! c))"
        "rep_of ?par (ids ! i) (fst (cl ! c'))" by auto
      with ne show False using rep_of_functional by blast
    qed
  qed
  show "\<forall>i<?n. \<exists>c<length cl. i \<in> set (snd (cl ! c))"
  proof (intro allI impI)
    fix i assume i: "i < ?n"
    then have "ids ! i \<in> dom ?par" using d by simp
    from rep_of_total[OF inv this] obtain r where r: "rep_of ?par (ids ! i) r" by blast
    let ?l = "filter (\<lambda>i. rep_of ?par (ids ! i) r) [0..<?n]"
    have il: "i \<in> set ?l" using i r by simp
    then have "?l \<noteq> []" by (metis empty_iff empty_set)
    with lookup[of r] have "map_of cl r = Some ?l" by (simp add: Let_def)
    then have "(r, ?l) \<in> set cl" by (rule map_of_SomeD)
    then obtain c where "c < length cl" "cl ! c = (r, ?l)" by (auto simp: in_set_conv_nth)
    with il show "\<exists>c<length cl. i \<in> set (snd (cl ! c))" by (intro exI[of _ c]) simp
  qed
qed

lemma clusters_same_set:
  assumes inv: "uf_inv uf" and d: "dom (parent uf) = set ids"
    and cl: "clusters_of (parent uf) (zip [0..<length ids] ids) cl"
    and i: "i < length ids" and j: "j < length ids"
    and same: "same_set (parent uf) (ids ! i) (ids ! j)"
    and c: "c < length cl" and ic: "i \<in> set (snd (cl ! c))"
  shows "j \<in> set (snd (cl ! c))"
proof -
  from clusters_partition(1)[OF inv d cl] c
  have l: "snd (cl ! c) = filter (\<lambda>i. rep_of (parent uf) (ids ! i) (fst (cl ! c))) [0..<length ids]"
    by simp
  from ic have "i \<in> set (filter (\<lambda>i. rep_of (parent uf) (ids ! i) (fst (cl ! c))) [0..<length ids])"
    by (simp only: l[symmetric])
  then have "rep_of (parent uf) (ids ! i) (fst (cl ! c))" by simp
  with same have "rep_of (parent uf) (ids ! j) (fst (cl ! c))"
    unfolding same_set_def using rep_of_functional by blast
  with j have "j \<in> set (filter (\<lambda>i. rep_of (parent uf) (ids ! i) (fst (cl ! c))) [0..<length ids])"
    by simp
  then show ?thesis by (simp only: l[symmetric])
qed

lemma endpoint_fields:
  assumes "collect_endpoints segs = Inr eps" and "i < length eps"
  shows "i div 2 < length segs \<and> segment_id (eps ! i) = seg_id (segs ! (i div 2)) \<and>
         (is_start (eps ! i) \<longleftrightarrow> even i)"
proof -
  from collect_endpoints_Inr[OF assms(1)] have len: "length eps = 2 * length segs"
    and nth: "\<And>k. k < length segs \<Longrightarrow>
        segment_id (eps ! (2 * k)) = seg_id (segs ! k) \<and> is_start (eps ! (2 * k)) \<and>
        segment_id (eps ! (2 * k + 1)) = seg_id (segs ! k) \<and> \<not> is_start (eps ! (2 * k + 1))"
    by auto
  from assms(2) len have k: "i div 2 < length segs" by auto
  show ?thesis
  proof (cases "even i")
    case True
    then have "i = 2 * (i div 2)" by auto
    with nth[OF k] True k show ?thesis by metis
  next
    case False
    then have "i = 2 * (i div 2) + 1" by (metis odd_two_times_div_two_succ)
    with nth[OF k] False k show ?thesis by metis
  qed
qed

lemma endpoint_key_inj:
  assumes eps: "collect_endpoints segs = Inr eps" and dist: "distinct (map seg_id segs)"
    and i: "i < length eps" and j: "j < length eps"
    and same: "segment_id (eps ! i) = segment_id (eps ! j)" "is_start (eps ! i) = is_start (eps ! j)"
  shows "i = j"
proof -
  from endpoint_fields[OF eps i] endpoint_fields[OF eps j] same
  have k: "i div 2 < length segs" "j div 2 < length segs"
    and ids: "seg_id (segs ! (i div 2)) = seg_id (segs ! (j div 2))"
    and par: "even i \<longleftrightarrow> even j" by auto
  from ids k dist have "i div 2 = j div 2"
    by (metis length_map nth_eq_iff_index_eq nth_map)
  with par show ?thesis by (metis dvd_mult_div_cancel odd_two_times_div_two_succ)
qed

lemma build_node_set_correct:
  assumes eps: "collect_endpoints segs = Inr eps"
  shows "\<exists>uf cl nodes sm em.
     build_node_set b segs = Some (Inr (nodes, sm, em)) \<and>
     merged_upto eps (map str_nat [0..<length eps]) {(i, j). i < j \<and> j < length eps} uf \<and>
     clusters_of (parent uf) (zip [0..<length eps] (map str_nat [0..<length eps])) cl \<and>
     nodes = map (\<lambda>(c, l). (node_name c, cluster_node b eps c l)) (zip [0..<length cl] (map snd cl)) \<and>
     (distinct (map seg_id segs) \<longrightarrow>
        (\<forall>c<length cl. \<forall>i\<in>set (snd (cl ! c)). endpoint_node sm em (eps ! i) = Some (node_name c)))"
proof -
  let ?n = "length eps"
  let ?ids = "map str_nat [0..<?n]"
  let ?uf0 = "fold make_set ?ids uf_empty"
  have len: "length ?ids = ?n" by simp
  from make_sets_inv[OF uf_inv_empty, of ?ids] have inv0: "uf_inv ?uf0" and d0: "dom (parent ?uf0) = set ?ids"
    by (auto simp: uf_empty_def)
  from merge_endpoints_correct[OF inv0 d0 len] obtain uf1 where
    m: "merge_endpoints eps ?ids ?uf0 = Some (Inr uf1)" and
    mu: "merged_upto eps ?ids {(i, j). i < j \<and> j < ?n} uf1" by blast
  from mu have inv1: "uf_inv uf1" and d1: "dom (parent uf1) = set ?ids" by (auto simp: merged_upto_def)
  from group_clusters_correct[OF inv1 d1] obtain uf2 cl where
    g: "group_clusters ?ids uf1 = Some (Inr (uf2, cl))" and
    cl: "clusters_of (parent uf1) (zip [0..<length ?ids] ?ids) cl" by blast
  note part = clusters_partition[OF inv1 d1 cl]
  let ?Ls = "map snd cl"
  have filt: "snd (cl ! c) =
      filter (\<lambda>i. rep_of (parent uf1) (?ids ! i) (fst (cl ! c))) [0..<length ?ids]"
    and nonempty: "snd (cl ! c) \<noteq> []" if "c < length cl" for c
    using part(1)[rule_format, OF that] by (rule conjunct1, rule conjunct2)
  have ne: "\<forall>l\<in>set ?Ls. l \<noteq> []"
  proof
    fix l assume "l \<in> set ?Ls"
    then obtain c where c: "c < length ?Ls" and l: "?Ls ! c = l"
      by (metis in_set_conv_nth)
    from c have c': "c < length cl" by simp
    from l c' have "l = snd (cl ! c)" by simp
    with nonempty[OF c'] show "l \<noteq> []" by simp
  qed
  have disj: "\<forall>c<length ?Ls. \<forall>c'<length ?Ls. c \<noteq> c' \<longrightarrow> set (?Ls ! c) \<inter> set (?Ls ! c') = {}"
    using part(2) by simp
  have bound: "i < ?n" if "i \<in> \<Union>(set ` set ?Ls)" for i
  proof -
    from that obtain l where l: "l \<in> set ?Ls" and il: "i \<in> set l" by blast
    from l obtain c where c: "c < length ?Ls" and lc: "?Ls ! c = l"
      by (metis in_set_conv_nth)
    from c have c': "c < length cl" by simp
    from lc c' have "l = snd (cl ! c)" by simp
    with il have "i \<in> set (snd (cl ! c))" by simp
    then have "i \<in> set (filter (\<lambda>i. rep_of (parent uf1) (?ids ! i) (fst (cl ! c))) [0..<length ?ids])"
      by (simp only: filt[OF c', symmetric])
    then show ?thesis by simp
  qed
  from build_nodes_correct[OF ne disj, of b eps] obtain nodes sm em where
    bn: "foldR (make_node b eps) (zip [0..<length ?Ls] ?Ls) ([], Map.empty, Map.empty) = Inr (nodes, sm, em)"
    and nodes: "nodes = map (\<lambda>(c, l). (node_name c, cluster_node b eps c l)) (zip [0..<length ?Ls] ?Ls)"
    and maps: "(\<forall>i\<in>\<Union>(set ` set ?Ls). \<forall>j\<in>\<Union>(set ` set ?Ls).
                segment_id (eps ! i) = segment_id (eps ! j) \<and> is_start (eps ! i) = is_start (eps ! j)
                \<longrightarrow> i = j) \<longrightarrow>
            (\<forall>c<length ?Ls. \<forall>i\<in>set (?Ls ! c). endpoint_node sm em (eps ! i) = Some (node_name c))"
    by blast
  have run: "build_node_set b segs = Some (Inr (nodes, sm, em))"
    using eps m g bn by (simp add: build_node_set_def build_nodes_def Let_def)
  have final: "\<forall>c<length cl. \<forall>i\<in>set (snd (cl ! c)). endpoint_node sm em (eps ! i) = Some (node_name c)"
    if dist: "distinct (map seg_id segs)"
  proof -
    have "\<forall>i\<in>\<Union>(set ` set ?Ls). \<forall>j\<in>\<Union>(set ` set ?Ls).
                segment_id (eps ! i) = segment_id (eps ! j) \<and> is_start (eps ! i) = is_start (eps ! j)
                \<longrightarrow> i = j"
      using endpoint_key_inj[OF eps dist] bound by blast
    with maps show ?thesis by simp
  qed
  have "clusters_of (parent uf1) (zip [0..<?n] ?ids) cl" using cl by simp
  moreover have "nodes = map (\<lambda>(c, l). (node_name c, cluster_node b eps c l)) (zip [0..<length cl] ?Ls)"
    using nodes by simp
  ultimately show ?thesis using run mu final by blast
qed

text \<open>What clustering returns, without the union-find behind it: the clusters are lists of
  endpoint indices that partition the endpoints, an endpoint near a member of a cluster is a
  member too, and the nodes and the two maps are built from the clusters in order.\<close>

lemma build_node_set_clusters:
  assumes eps: "collect_endpoints segs = Inr eps"
  shows "\<exists>nodes sm em Ls.
     build_node_set b segs = Some (Inr (nodes, sm, em)) \<and>
     nodes = map (\<lambda>(c, l). (node_name c, cluster_node b eps c l)) (zip [0..<length Ls] Ls) \<and>
     (\<forall>c<length Ls. Ls ! c \<noteq> [] \<and> Ls ! c = filter (\<lambda>i. i \<in> set (Ls ! c)) [0..<length eps]) \<and>
     (\<forall>c<length Ls. \<forall>c'<length Ls. c \<noteq> c' \<longrightarrow> set (Ls ! c) \<inter> set (Ls ! c') = {}) \<and>
     (\<forall>i<length eps. \<exists>c<length Ls. i \<in> set (Ls ! c)) \<and>
     (\<forall>c<length Ls. \<forall>i\<in>set (Ls ! c). \<forall>j<length eps.
         distance (eps ! i) (eps ! j) < SNAP_RADIUS \<longrightarrow> j \<in> set (Ls ! c)) \<and>
     (distinct (map seg_id segs) \<longrightarrow>
        (\<forall>c<length Ls. \<forall>i\<in>set (Ls ! c). endpoint_node sm em (eps ! i) = Some (node_name c)))"
proof -
  let ?n = "length eps"
  let ?ids = "map str_nat [0..<?n]"
  from build_node_set_correct[OF eps, of b] obtain uf cl nodes sm em where
    run: "build_node_set b segs = Some (Inr (nodes, sm, em))" and
    mu: "merged_upto eps ?ids {(i, j). i < j \<and> j < ?n} uf" and
    cl: "clusters_of (parent uf) (zip [0..<?n] ?ids) cl" and
    nodes: "nodes = map (\<lambda>(c, l). (node_name c, cluster_node b eps c l)) (zip [0..<length cl] (map snd cl))" and
    maps: "distinct (map seg_id segs) \<longrightarrow>
        (\<forall>c<length cl. \<forall>i\<in>set (snd (cl ! c)). endpoint_node sm em (eps ! i) = Some (node_name c))"
    by blast
  have len: "length ?ids = ?n" by simp
  from mu have inv: "uf_inv uf" and d: "dom (parent uf) = set ?ids" by (auto simp: merged_upto_def)
  from cl have cl': "clusters_of (parent uf) (zip [0..<length ?ids] ?ids) cl" by simp
  note part = clusters_partition[OF inv d cl']
  let ?Ls = "map snd cl"
  have filt: "snd (cl ! c) =
      filter (\<lambda>i. rep_of (parent uf) (?ids ! i) (fst (cl ! c))) [0..<length ?ids]"
    and nonempty: "snd (cl ! c) \<noteq> []" if "c < length cl" for c
    using part(1)[rule_format, OF that] by (rule conjunct1, rule conjunct2)
  have shape: "?Ls ! c \<noteq> [] \<and> ?Ls ! c = filter (\<lambda>i. i \<in> set (?Ls ! c)) [0..<?n]"
    if c: "c < length ?Ls" for c
  proof -
    from c have c': "c < length cl" by simp
    define P where "P = (\<lambda>i. rep_of (parent uf) (?ids ! i) (fst (cl ! c)))"
    have f: "snd (cl ! c) = filter P [0..<?n]" using filt[OF c'] by (simp add: P_def)
    have "filter (\<lambda>i. i \<in> set (filter P [0..<?n])) [0..<?n] = filter P [0..<?n]"
      by (rule filter_cong) auto
    with f nonempty[OF c'] c' show ?thesis by simp
  qed
  have disj: "\<forall>c<length ?Ls. \<forall>c'<length ?Ls. c \<noteq> c' \<longrightarrow> set (?Ls ! c) \<inter> set (?Ls ! c') = {}"
    using part(2) by simp
  have cover: "\<forall>i<?n. \<exists>c<length ?Ls. i \<in> set (?Ls ! c)"
  proof (intro allI impI)
    fix i assume "i < ?n"
    then have "i < length ?ids" by simp
    with part(3) obtain c where "c < length cl" "i \<in> set (snd (cl ! c))" by blast
    then show "\<exists>c<length ?Ls. i \<in> set (?Ls ! c)" by (intro exI[of _ c]) simp
  qed
  have near: "j \<in> set (?Ls ! c)"
    if c: "c < length ?Ls" and i: "i \<in> set (?Ls ! c)" and j: "j < ?n"
      and dist: "distance (eps ! i) (eps ! j) < SNAP_RADIUS" for c i j
  proof -
    from c have c': "c < length cl" by simp
    from i c' have i': "i \<in> set (snd (cl ! c))" by simp
    from shape[OF c] i have "i \<in> set (filter (\<lambda>i. i \<in> set (?Ls ! c)) [0..<?n])" by simp
    then have il: "i < ?n" by simp
    from merged_upto_all[OF mu len il j dist] have s: "same_set (parent uf) (?ids ! i) (?ids ! j)" .
    from il j have il': "i < length ?ids" and jl': "j < length ?ids" by simp_all
    from clusters_same_set[OF inv d cl' il' jl' s c' i'] show ?thesis using c' by simp
  qed
  have maps': "distinct (map seg_id segs) \<longrightarrow>
        (\<forall>c<length ?Ls. \<forall>i\<in>set (?Ls ! c). endpoint_node sm em (eps ! i) = Some (node_name c))"
    using maps by simp
  have nodes': "nodes = map (\<lambda>(c, l). (node_name c, cluster_node b eps c l)) (zip [0..<length ?Ls] ?Ls)"
    using nodes by simp
  show ?thesis
    apply (rule exI[of _ nodes], rule exI[of _ sm], rule exI[of _ em], rule exI[of _ ?Ls])
    using run nodes' shape disj cover near maps' by blast
qed

lemma cluster_node_lists:
  "outgoing (cluster_node b eps c l) = map segment_id (filter is_start (map (\<lambda>i. eps ! i) l))"
  "incoming (cluster_node b eps c l) = map segment_id (filter (\<lambda>e. \<not> is_start e) (map (\<lambda>i. eps ! i) l))"
  "node_id (cluster_node b eps c l) = node_name c"
  by (simp_all add: cluster_node_def Let_def)

lemma cluster_nodes_nth:
  assumes "nodes = map (\<lambda>(c, l). (node_name c, cluster_node b eps c l)) (zip [0..<length Ls] Ls)"
  shows "length nodes = length Ls"
    and "c < length Ls \<Longrightarrow> nodes ! c = (node_name c, cluster_node b eps c (Ls ! c))"
  using assms by simp_all

lemma cluster_member_listed:
  assumes "i \<in> set l"
  shows "segment_id (eps ! i) \<in>
           set (if is_start (eps ! i) then outgoing (cluster_node b eps c l)
                else incoming (cluster_node b eps c l))"
  using assms by (auto simp: cluster_node_lists)

text \<open>
  Claim C2. Clustering is transitive. If endpoint \<open>i\<close> is within the snap radius of endpoint
  \<open>j\<close>, and \<open>j\<close> within the snap radius of endpoint \<open>k\<close>, then clustering returns, and one node
  holds all three: the segment of each is in that node's outgoing list if the endpoint is a
  start and in its incoming list if it is an end, and with distinct segment ids the returned
  maps send all three endpoints to that node's id. Nothing is asked of the distance between
  \<open>i\<close> and \<open>k\<close>.
\<close>

theorem clustering_is_transitive:
  assumes "collect_endpoints segs = Inr eps"
    and "i < length eps" and "j < length eps" and "k < length eps"
    and "distance (eps ! i) (eps ! j) < SNAP_RADIUS"
    and "distance (eps ! j) (eps ! k) < SNAP_RADIUS"
  shows "\<exists>nodes sm em c.
           build_node_set b segs = Some (Inr (nodes, sm, em)) \<and> c < length nodes \<and>
           node_id (snd (nodes ! c)) = fst (nodes ! c) \<and>
           segment_id (eps ! i) \<in> set (if is_start (eps ! i) then outgoing (snd (nodes ! c))
                                       else incoming (snd (nodes ! c))) \<and>
           segment_id (eps ! j) \<in> set (if is_start (eps ! j) then outgoing (snd (nodes ! c))
                                       else incoming (snd (nodes ! c))) \<and>
           segment_id (eps ! k) \<in> set (if is_start (eps ! k) then outgoing (snd (nodes ! c))
                                       else incoming (snd (nodes ! c))) \<and>
           (distinct (map seg_id segs) \<longrightarrow>
              endpoint_node sm em (eps ! i) = Some (fst (nodes ! c)) \<and>
              endpoint_node sm em (eps ! j) = Some (fst (nodes ! c)) \<and>
              endpoint_node sm em (eps ! k) = Some (fst (nodes ! c)))"
proof -
  from build_node_set_clusters[OF assms(1), of b] obtain nodes sm em Ls where
    run: "build_node_set b segs = Some (Inr (nodes, sm, em))" and
    nodes: "nodes = map (\<lambda>(c, l). (node_name c, cluster_node b eps c l)) (zip [0..<length Ls] Ls)" and
    cover: "\<forall>i<length eps. \<exists>c<length Ls. i \<in> set (Ls ! c)" and
    near: "\<forall>c<length Ls. \<forall>i\<in>set (Ls ! c). \<forall>j<length eps.
         distance (eps ! i) (eps ! j) < SNAP_RADIUS \<longrightarrow> j \<in> set (Ls ! c)" and
    maps: "distinct (map seg_id segs) \<longrightarrow>
        (\<forall>c<length Ls. \<forall>i\<in>set (Ls ! c). endpoint_node sm em (eps ! i) = Some (node_name c))"
    by blast
  from cover assms(2) obtain c where c: "c < length Ls" and ic: "i \<in> set (Ls ! c)" by blast
  from near c ic assms(3,5) have jc: "j \<in> set (Ls ! c)" by blast
  from near c jc assms(4,6) have kc: "k \<in> set (Ls ! c)" by blast
  from cluster_nodes_nth[OF nodes] c have len: "c < length nodes"
    and nth: "nodes ! c = (node_name c, cluster_node b eps c (Ls ! c))" by simp_all
  have "node_id (snd (nodes ! c)) = fst (nodes ! c)" by (simp add: nth cluster_node_lists)
  moreover have "segment_id (eps ! i) \<in> set (if is_start (eps ! i) then outgoing (snd (nodes ! c))
                                       else incoming (snd (nodes ! c)))"
    unfolding nth snd_conv by (rule cluster_member_listed[OF ic])
  moreover have "segment_id (eps ! j) \<in> set (if is_start (eps ! j) then outgoing (snd (nodes ! c))
                                       else incoming (snd (nodes ! c)))"
    unfolding nth snd_conv by (rule cluster_member_listed[OF jc])
  moreover have "segment_id (eps ! k) \<in> set (if is_start (eps ! k) then outgoing (snd (nodes ! c))
                                       else incoming (snd (nodes ! c)))"
    unfolding nth snd_conv by (rule cluster_member_listed[OF kc])
  moreover have "distinct (map seg_id segs) \<longrightarrow>
              endpoint_node sm em (eps ! i) = Some (fst (nodes ! c)) \<and>
              endpoint_node sm em (eps ! j) = Some (fst (nodes ! c)) \<and>
              endpoint_node sm em (eps ! k) = Some (fst (nodes ! c))"
    using maps c ic jc kc by (simp add: nth)
  ultimately show ?thesis using run len by blast
qed

lemma ex_chain_collect: "collect_endpoints ex_chain = Inr ex_chain_endpoints"
  by (simp add: collect_endpoints_def segment_endpoints_def ex_chain_def ex_chain_endpoints_def
      px_def pz_def)

lemma ex_chain_distances:
  "distance (ex_chain_endpoints ! 0) (ex_chain_endpoints ! 2) = 5"
  "distance (ex_chain_endpoints ! 2) (ex_chain_endpoints ! 4) = 9"
  "distance (ex_chain_endpoints ! 0) (ex_chain_endpoints ! 4) = 14"
proof -
  have "sqrt 25 = 5" "sqrt 81 = 9" "sqrt 196 = 14"
    by (rule real_sqrt_unique; simp)+
  then show "distance (ex_chain_endpoints ! 0) (ex_chain_endpoints ! 2) = 5"
    "distance (ex_chain_endpoints ! 2) (ex_chain_endpoints ! 4) = 9"
    "distance (ex_chain_endpoints ! 0) (ex_chain_endpoints ! 4) = 14"
    by (simp_all add: distance_def ex_chain_endpoints_def)
qed

theorem clustering_is_transitive_witness:
  "collect_endpoints ex_chain = Inr ex_chain_endpoints \<and>
   distance (ex_chain_endpoints ! 0) (ex_chain_endpoints ! 2) = 5 \<and>
   distance (ex_chain_endpoints ! 2) (ex_chain_endpoints ! 4) = 9 \<and>
   distance (ex_chain_endpoints ! 0) (ex_chain_endpoints ! 4) = 14 \<and>
   \<not> distance (ex_chain_endpoints ! 0) (ex_chain_endpoints ! 4) < SNAP_RADIUS \<and>
   (\<forall>b. \<exists>nodes sm em c.
      build_node_set b ex_chain = Some (Inr (nodes, sm, em)) \<and> c < length nodes \<and>
      {''sa'', ''sb'', ''sc''} \<subseteq> set (outgoing (snd (nodes ! c))) \<and>
      sm ''sa'' = Some (fst (nodes ! c)) \<and> sm ''sb'' = Some (fst (nodes ! c)) \<and>
      sm ''sc'' = Some (fst (nodes ! c)))"
proof -
  have l: "(0::nat) < length ex_chain_endpoints" "(2::nat) < length ex_chain_endpoints"
    "(4::nat) < length ex_chain_endpoints"
    by (simp_all add: ex_chain_endpoints_def)
  have d: "distance (ex_chain_endpoints ! 0) (ex_chain_endpoints ! 2) < SNAP_RADIUS"
    "distance (ex_chain_endpoints ! 2) (ex_chain_endpoints ! 4) < SNAP_RADIUS"
    by (simp_all add: ex_chain_distances SNAP_RADIUS_def)
  have far: "\<not> distance (ex_chain_endpoints ! 0) (ex_chain_endpoints ! 4) < SNAP_RADIUS"
    by (simp add: ex_chain_distances SNAP_RADIUS_def)
  have ids: "distinct (map seg_id ex_chain)" by (simp add: ex_chain_def)
  have e: "segment_id (ex_chain_endpoints ! 0) = ''sa''" "is_start (ex_chain_endpoints ! 0)"
    "segment_id (ex_chain_endpoints ! 2) = ''sb''" "is_start (ex_chain_endpoints ! 2)"
    "segment_id (ex_chain_endpoints ! 4) = ''sc''" "is_start (ex_chain_endpoints ! 4)"
    by (simp_all add: ex_chain_endpoints_def)
  have "\<exists>nodes sm em c.
      build_node_set b ex_chain = Some (Inr (nodes, sm, em)) \<and> c < length nodes \<and>
      {''sa'', ''sb'', ''sc''} \<subseteq> set (outgoing (snd (nodes ! c))) \<and>
      sm ''sa'' = Some (fst (nodes ! c)) \<and> sm ''sb'' = Some (fst (nodes ! c)) \<and>
      sm ''sc'' = Some (fst (nodes ! c))" for b
    using clustering_is_transitive[OF ex_chain_collect l d, of b] ids
    by (simp only: e endpoint_node_def if_True) blast
  with ex_chain_collect ex_chain_distances far show ?thesis by blast
qed

lemma cluster_outgoing_iff:
  assumes eps: "collect_endpoints segs = Inr eps" and dist: "distinct (map seg_id segs)"
    and l: "set l \<subseteq> {0..<length eps}" and k: "k < length segs"
  shows "seg_id (segs ! k) \<in> set (outgoing (cluster_node b eps c l)) \<longleftrightarrow> 2 * k \<in> set l"
proof
  assume "seg_id (segs ! k) \<in> set (outgoing (cluster_node b eps c l))"
  then obtain i where i: "i \<in> set l" "is_start (eps ! i)" "segment_id (eps ! i) = seg_id (segs ! k)"
    by (auto simp: cluster_node_lists)
  from i(1) l have il: "i < length eps" by auto
  from endpoint_fields[OF eps il] i(2,3) have "i div 2 < length segs"
    "seg_id (segs ! (i div 2)) = seg_id (segs ! k)" "even i" by auto
  with dist k have "i div 2 = k" by (metis length_map nth_eq_iff_index_eq nth_map)
  with \<open>even i\<close> have "i = 2 * k" by auto
  with i(1) show "2 * k \<in> set l" by simp
next
  assume m: "2 * k \<in> set l"
  with l have il: "2 * k < length eps" by auto
  from endpoint_fields[OF eps il] have "is_start (eps ! (2 * k))"
    "segment_id (eps ! (2 * k)) = seg_id (segs ! k)" by auto
  with cluster_member_listed[OF m, of eps b c]
  show "seg_id (segs ! k) \<in> set (outgoing (cluster_node b eps c l))" by simp
qed

lemma cluster_incoming_iff:
  assumes eps: "collect_endpoints segs = Inr eps" and dist: "distinct (map seg_id segs)"
    and l: "set l \<subseteq> {0..<length eps}" and k: "k < length segs"
  shows "seg_id (segs ! k) \<in> set (incoming (cluster_node b eps c l)) \<longleftrightarrow> 2 * k + 1 \<in> set l"
proof
  assume "seg_id (segs ! k) \<in> set (incoming (cluster_node b eps c l))"
  then obtain i where i: "i \<in> set l" "\<not> is_start (eps ! i)" "segment_id (eps ! i) = seg_id (segs ! k)"
    by (auto simp: cluster_node_lists)
  from i(1) l have il: "i < length eps" by auto
  from endpoint_fields[OF eps il] i(2,3) have "i div 2 < length segs"
    "seg_id (segs ! (i div 2)) = seg_id (segs ! k)" "odd i" by auto
  with dist k have "i div 2 = k" by (metis length_map nth_eq_iff_index_eq nth_map)
  with \<open>odd i\<close> have "i = 2 * k + 1" by (metis odd_two_times_div_two_succ)
  with i(1) show "2 * k + 1 \<in> set l" by simp
next
  assume m: "2 * k + 1 \<in> set l"
  with l have il: "2 * k + 1 < length eps" by auto
  from endpoint_fields[OF eps il] have "\<not> is_start (eps ! (2 * k + 1))"
    "segment_id (eps ! (2 * k + 1)) = seg_id (segs ! k)" by auto
  with cluster_member_listed[OF m, of eps b c]
  show "seg_id (segs ! k) \<in> set (incoming (cluster_node b eps c l))" by simp
qed

lemma cluster_lists_distinct:
  assumes eps: "collect_endpoints segs = Inr eps" and dist: "distinct (map seg_id segs)"
    and l: "set l \<subseteq> {0..<length eps}" and dl: "distinct l"
  shows "distinct (outgoing (cluster_node b eps c l))"
    and "distinct (incoming (cluster_node b eps c l))"
proof -
  have inj: "inj_on (\<lambda>i. segment_id (eps ! i)) (set (filter (\<lambda>i. is_start (eps ! i) = s) l))" for s
  proof (rule inj_onI)
    fix i j
    assume i: "i \<in> set (filter (\<lambda>i. is_start (eps ! i) = s) l)"
      and j: "j \<in> set (filter (\<lambda>i. is_start (eps ! i) = s) l)"
      and e: "segment_id (eps ! i) = segment_id (eps ! j)"
    from i j l have "i < length eps" "j < length eps" "is_start (eps ! i) = is_start (eps ! j)"
      by auto
    with endpoint_key_inj[OF eps dist _ _ e] show "i = j" by blast
  qed
  have o: "outgoing (cluster_node b eps c l) =
           map (\<lambda>i. segment_id (eps ! i)) (filter (\<lambda>i. is_start (eps ! i) = True) l)"
    by (simp add: cluster_node_lists filter_map comp_def)
  have n: "incoming (cluster_node b eps c l) =
           map (\<lambda>i. segment_id (eps ! i)) (filter (\<lambda>i. is_start (eps ! i) = False) l)"
    by (simp add: cluster_node_lists filter_map comp_def)
  show "distinct (outgoing (cluster_node b eps c l))"
    unfolding o using inj[of True] dl by (simp add: distinct_map)
  show "distinct (incoming (cluster_node b eps c l))"
    unfolding n using inj[of False] dl by (simp add: distinct_map)
qed

lemma cluster_nodes_ids:
  assumes "nodes = map (\<lambda>(c, l). (node_name c, cluster_node b eps c l)) (zip [0..<length Ls] Ls)"
  shows "distinct (map fst nodes)"
proof -
  have "map fst nodes = map node_name [0..<length Ls]"
    unfolding assms by (rule nth_equalityI) simp_all
  moreover have "inj_on node_name (set [0..<length Ls])"
    by (rule inj_onI) (simp add: node_name_inj)
  ultimately show ?thesis by (simp add: distinct_map)
qed

text \<open>What clustering does with a list of segments that have distinct ids and at least one
  point each.\<close>

lemma build_node_set_lists:
  assumes dist: "distinct (map seg_id segs)" and eps: "collect_endpoints segs = Inr eps"
  shows "\<exists>nodes sm em.
     build_node_set b segs = Some (Inr (nodes, sm, em)) \<and>
     distinct (map fst nodes) \<and>
     (\<forall>c<length nodes. node_id (snd (nodes ! c)) = fst (nodes ! c) \<and>
        distinct (outgoing (snd (nodes ! c))) \<and> distinct (incoming (snd (nodes ! c)))) \<and>
     (\<forall>k<length segs. \<exists>c<length nodes.
        sm (seg_id (segs ! k)) = Some (fst (nodes ! c)) \<and>
        (\<forall>c'<length nodes. seg_id (segs ! k) \<in> set (outgoing (snd (nodes ! c'))) \<longleftrightarrow> c' = c)) \<and>
     (\<forall>k<length segs. \<exists>c<length nodes.
        em (seg_id (segs ! k)) = Some (fst (nodes ! c)) \<and>
        (\<forall>c'<length nodes. seg_id (segs ! k) \<in> set (incoming (snd (nodes ! c'))) \<longleftrightarrow> c' = c))"
proof -
  let ?n = "length eps"
  from build_node_set_clusters[OF eps, of b] obtain nodes sm em Ls where
    run: "build_node_set b segs = Some (Inr (nodes, sm, em))" and
    nodes: "nodes = map (\<lambda>(c, l). (node_name c, cluster_node b eps c l)) (zip [0..<length Ls] Ls)" and
    shape: "\<forall>c<length Ls. Ls ! c \<noteq> [] \<and> Ls ! c = filter (\<lambda>i. i \<in> set (Ls ! c)) [0..<?n]" and
    disj: "\<forall>c<length Ls. \<forall>c'<length Ls. c \<noteq> c' \<longrightarrow> set (Ls ! c) \<inter> set (Ls ! c') = {}" and
    cover: "\<forall>i<?n. \<exists>c<length Ls. i \<in> set (Ls ! c)" and
    maps0: "distinct (map seg_id segs) \<longrightarrow>
        (\<forall>c<length Ls. \<forall>i\<in>set (Ls ! c). endpoint_node sm em (eps ! i) = Some (node_name c))"
    by blast
  from maps0 dist have maps: "\<And>c i. c < length Ls \<Longrightarrow> i \<in> set (Ls ! c) \<Longrightarrow>
      endpoint_node sm em (eps ! i) = Some (node_name c)" by blast
  note nn = cluster_nodes_nth[OF nodes]
  have sub: "set (Ls ! c) \<subseteq> {0..<?n}" and dl: "distinct (Ls ! c)" if c: "c < length Ls" for c
  proof -
    from shape c have e: "Ls ! c = filter (\<lambda>i. i \<in> set (Ls ! c)) [0..<?n]" by blast
    have "set (filter (\<lambda>i. i \<in> set (Ls ! c)) [0..<?n]) \<subseteq> {0..<?n}" by auto
    then show "set (Ls ! c) \<subseteq> {0..<?n}" by (simp only: e[symmetric])
    have "distinct (filter (\<lambda>i. i \<in> set (Ls ! c)) [0..<?n])" by simp
    then show "distinct (Ls ! c)" by (simp only: e[symmetric])
  qed
  have unique: "c' = c" if "c < length Ls" "c' < length Ls" "i \<in> set (Ls ! c)" "i \<in> set (Ls ! c')"
    for c c' i
    using disj that by blast
  from collect_endpoints_Inr[OF eps] have len: "?n = 2 * length segs" by simp
  have p1: "distinct (map fst nodes)" by (rule cluster_nodes_ids[OF nodes])
  have p2: "\<forall>c<length nodes. node_id (snd (nodes ! c)) = fst (nodes ! c) \<and>
        distinct (outgoing (snd (nodes ! c))) \<and> distinct (incoming (snd (nodes ! c)))"
  proof (intro allI impI)
    fix c assume "c < length nodes"
    then have c: "c < length Ls" by (simp add: nn(1))
    from nn(2)[OF c] cluster_lists_distinct[OF eps dist sub[OF c] dl[OF c], of b c]
    show "node_id (snd (nodes ! c)) = fst (nodes ! c) \<and>
        distinct (outgoing (snd (nodes ! c))) \<and> distinct (incoming (snd (nodes ! c)))"
      by (simp add: cluster_node_lists)
  qed
  have p3: "\<forall>k<length segs. \<exists>c<length nodes.
        sm (seg_id (segs ! k)) = Some (fst (nodes ! c)) \<and>
        (\<forall>c'<length nodes. seg_id (segs ! k) \<in> set (outgoing (snd (nodes ! c'))) \<longleftrightarrow> c' = c)"
  proof (intro allI impI)
    fix k assume k: "k < length segs"
    then have il: "2 * k < ?n" by (simp add: len)
    with cover obtain c where c: "c < length Ls" and ic: "2 * k \<in> set (Ls ! c)" by blast
    from endpoint_fields[OF eps il] have f: "is_start (eps ! (2 * k))"
      "segment_id (eps ! (2 * k)) = seg_id (segs ! k)" by auto
    from maps[OF c ic] f have m: "sm (seg_id (segs ! k)) = Some (node_name c)"
      by (simp add: endpoint_node_def)
    have "seg_id (segs ! k) \<in> set (outgoing (snd (nodes ! c'))) \<longleftrightarrow> c' = c"
      if "c' < length nodes" for c'
    proof -
      from that have c': "c' < length Ls" by (simp add: nn(1))
      from cluster_outgoing_iff[OF eps dist sub[OF c'] k, of b c'] nn(2)[OF c']
      have "seg_id (segs ! k) \<in> set (outgoing (snd (nodes ! c'))) \<longleftrightarrow> 2 * k \<in> set (Ls ! c')"
        by simp
      also have "\<dots> \<longleftrightarrow> c' = c" using unique[OF c c' ic] ic by blast
      finally show ?thesis .
    qed
    with m c nn show "\<exists>c<length nodes.
        sm (seg_id (segs ! k)) = Some (fst (nodes ! c)) \<and>
        (\<forall>c'<length nodes. seg_id (segs ! k) \<in> set (outgoing (snd (nodes ! c'))) \<longleftrightarrow> c' = c)"
      by (intro exI[of _ c]) simp
  qed
  have p4: "\<forall>k<length segs. \<exists>c<length nodes.
        em (seg_id (segs ! k)) = Some (fst (nodes ! c)) \<and>
        (\<forall>c'<length nodes. seg_id (segs ! k) \<in> set (incoming (snd (nodes ! c'))) \<longleftrightarrow> c' = c)"
  proof (intro allI impI)
    fix k assume k: "k < length segs"
    then have il: "2 * k + 1 < ?n" by (simp add: len)
    with cover obtain c where c: "c < length Ls" and ic: "2 * k + 1 \<in> set (Ls ! c)" by blast
    from endpoint_fields[OF eps il] have f: "\<not> is_start (eps ! (2 * k + 1))"
      "segment_id (eps ! (2 * k + 1)) = seg_id (segs ! k)" by auto
    from maps[OF c ic] f have m: "em (seg_id (segs ! k)) = Some (node_name c)"
      by (simp add: endpoint_node_def)
    have "seg_id (segs ! k) \<in> set (incoming (snd (nodes ! c'))) \<longleftrightarrow> c' = c"
      if "c' < length nodes" for c'
    proof -
      from that have c': "c' < length Ls" by (simp add: nn(1))
      from cluster_incoming_iff[OF eps dist sub[OF c'] k, of b c'] nn(2)[OF c']
      have "seg_id (segs ! k) \<in> set (incoming (snd (nodes ! c'))) \<longleftrightarrow> 2 * k + 1 \<in> set (Ls ! c')"
        by simp
      also have "\<dots> \<longleftrightarrow> c' = c" using unique[OF c c' ic] ic by blast
      finally show ?thesis .
    qed
    with m c nn show "\<exists>c<length nodes.
        em (seg_id (segs ! k)) = Some (fst (nodes ! c)) \<and>
        (\<forall>c'<length nodes. seg_id (segs ! k) \<in> set (incoming (snd (nodes ! c'))) \<longleftrightarrow> c' = c)"
      by (intro exI[of _ c]) simp
  qed
  from run p1 p2 p3 p4 show ?thesis by blast
qed

text \<open>
  Claim C9. For segments with distinct ids and at least one point each, clustering returns
  nodes with distinct ids such that every segment id is in the outgoing list of exactly one
  node, the one the start map names for it, and in the incoming list of exactly one node, the
  one the end map names for it; and no outgoing or incoming list holds an id twice.
\<close>

theorem segment_listed_in_one_node:
  assumes "distinct (map seg_id segs)" and "\<forall>s\<in>set segs. points s \<noteq> []"
  shows "\<exists>nodes sm em.
     build_node_set b segs = Some (Inr (nodes, sm, em)) \<and>
     distinct (map fst nodes) \<and>
     (\<forall>c<length nodes. node_id (snd (nodes ! c)) = fst (nodes ! c) \<and>
        distinct (outgoing (snd (nodes ! c))) \<and> distinct (incoming (snd (nodes ! c)))) \<and>
     (\<forall>k<length segs. \<exists>c<length nodes.
        sm (seg_id (segs ! k)) = Some (fst (nodes ! c)) \<and>
        (\<forall>c'<length nodes. seg_id (segs ! k) \<in> set (outgoing (snd (nodes ! c'))) \<longleftrightarrow> c' = c)) \<and>
     (\<forall>k<length segs. \<exists>c<length nodes.
        em (seg_id (segs ! k)) = Some (fst (nodes ! c)) \<and>
        (\<forall>c'<length nodes. seg_id (segs ! k) \<in> set (incoming (snd (nodes ! c'))) \<longleftrightarrow> c' = c))"
proof -
  from collect_endpoints_total[OF assms(2)] obtain eps where "collect_endpoints segs = Inr eps" ..
  from build_node_set_lists[OF assms(1) this] show ?thesis .
qed

theorem segment_listed_in_one_node_witness:
  "distinct (map seg_id [ex_a, ex_b, ex_c]) \<and>
   (\<forall>b. \<exists>nodes sm em.
      build_node_set b [ex_a, ex_b, ex_c] = Some (Inr (nodes, sm, em)) \<and>
      distinct (map fst nodes) \<and>
      (\<exists>c<length nodes. sm ''a'' = Some (fst (nodes ! c)) \<and> ''a'' \<in> set (outgoing (snd (nodes ! c)))) \<and>
      (\<exists>c<length nodes. em ''a'' = Some (fst (nodes ! c)) \<and> ''a'' \<in> set (incoming (snd (nodes ! c)))) \<and>
      (\<exists>c<length nodes. sm ''c'' = Some (fst (nodes ! c)) \<and> ''c'' \<in> set (outgoing (snd (nodes ! c)))))"
proof -
  have d: "distinct (map seg_id [ex_a, ex_b, ex_c])" by (simp add: ex_ids)
  have p: "\<forall>s\<in>set [ex_a, ex_b, ex_c]. points s \<noteq> []" by (simp add: ex_a_def ex_b_def ex_c_def)
  have "\<exists>nodes sm em.
      build_node_set b [ex_a, ex_b, ex_c] = Some (Inr (nodes, sm, em)) \<and>
      distinct (map fst nodes) \<and>
      (\<exists>c<length nodes. sm ''a'' = Some (fst (nodes ! c)) \<and> ''a'' \<in> set (outgoing (snd (nodes ! c)))) \<and>
      (\<exists>c<length nodes. em ''a'' = Some (fst (nodes ! c)) \<and> ''a'' \<in> set (incoming (snd (nodes ! c)))) \<and>
      (\<exists>c<length nodes. sm ''c'' = Some (fst (nodes ! c)) \<and> ''c'' \<in> set (outgoing (snd (nodes ! c))))"
    for b
  proof -
    from segment_listed_in_one_node[OF d p, of b] obtain nodes sm em where
      run: "build_node_set b [ex_a, ex_b, ex_c] = Some (Inr (nodes, sm, em))" and
      dn: "distinct (map fst nodes)" and
      o: "\<forall>k<length [ex_a, ex_b, ex_c]. \<exists>c<length nodes.
        sm (seg_id ([ex_a, ex_b, ex_c] ! k)) = Some (fst (nodes ! c)) \<and>
        (\<forall>c'<length nodes. seg_id ([ex_a, ex_b, ex_c] ! k) \<in> set (outgoing (snd (nodes ! c'))) \<longleftrightarrow> c' = c)" and
      i: "\<forall>k<length [ex_a, ex_b, ex_c]. \<exists>c<length nodes.
        em (seg_id ([ex_a, ex_b, ex_c] ! k)) = Some (fst (nodes ! c)) \<and>
        (\<forall>c'<length nodes. seg_id ([ex_a, ex_b, ex_c] ! k) \<in> set (incoming (snd (nodes ! c'))) \<longleftrightarrow> c' = c)"
      by blast
    from o[rule_format, of 0] have oa: "\<exists>c<length nodes. sm ''a'' = Some (fst (nodes ! c)) \<and>
        ''a'' \<in> set (outgoing (snd (nodes ! c)))" by (simp add: ex_ids) blast
    from i[rule_format, of 0] have ia: "\<exists>c<length nodes. em ''a'' = Some (fst (nodes ! c)) \<and>
        ''a'' \<in> set (incoming (snd (nodes ! c)))" by (simp add: ex_ids) blast
    from o[rule_format, of 2] have oc: "\<exists>c<length nodes. sm ''c'' = Some (fst (nodes ! c)) \<and>
        ''c'' \<in> set (outgoing (snd (nodes ! c)))" by (simp add: ex_ids) blast
    from run dn oa ia oc show ?thesis by blast
  qed
  with d show ?thesis by blast
qed

lemma py_min_max_Inr: "xs \<noteq> [] \<Longrightarrow> (\<exists>v. py_min xs = Inr v) \<and> (\<exists>v. py_max xs = Inr v)"
  by (cases xs) (simp_all add: py_min_def py_max_def)

lemma compute_data_bounds_cases:
  "compute_data_bounds segs =
     (if \<forall>s\<in>set segs. points s = [] then Inl ValueError
      else Inr \<lparr>xMin = projr (py_min (concat (map (\<lambda>seg. map px (points seg)) segs))),
                xMax = projr (py_max (concat (map (\<lambda>seg. map px (points seg)) segs))),
                zMin = projr (py_min (concat (map (\<lambda>seg. map pz (points seg)) segs))),
                zMax = projr (py_max (concat (map (\<lambda>seg. map pz (points seg)) segs)))\<rparr>)"
proof (cases "\<forall>s\<in>set segs. points s = []")
  case True
  then have e: "concat (map (\<lambda>seg. map px (points seg)) segs) = []" by simp
  have "compute_data_bounds segs = Inl ValueError"
    unfolding compute_data_bounds_def Let_def e by (simp add: py_min_def)
  with True show ?thesis by simp
next
  case False
  then have "concat (map (\<lambda>seg. map px (points seg)) segs) \<noteq> []"
    "concat (map (\<lambda>seg. map pz (points seg)) segs) \<noteq> []" by auto
  from py_min_max_Inr[OF this(1)] py_min_max_Inr[OF this(2)] False show ?thesis
    by (auto simp: compute_data_bounds_def Let_def)
qed

text \<open>No segment is filtered out: the first stage that indexes a missing point raises.\<close>

lemma augment_main_degenerate:
  assumes s: "s \<in> set segs" and short: "length (points s) < 2"
  shows "augment_main h segs =
         Some (Inl (if \<forall>s\<in>set segs. points s = [] then ValueError else IndexError))"
proof (cases "\<forall>s\<in>set segs. points s = []")
  case True
  then show ?thesis by (simp add: augment_main_def compute_data_bounds_cases)
next
  case False
  then obtain b where b: "compute_data_bounds segs = Inr b"
    by (simp add: compute_data_bounds_cases)
  show ?thesis
  proof (cases "\<exists>s\<in>set segs. points s = []")
    case True
    then obtain s' where "s' \<in> set segs" "points s' = []" by blast
    from collect_endpoints_error[OF this] have "build_node_set b segs = Some (Inl IndexError)"
      by (simp add: build_node_set_def)
    with b False show ?thesis by (simp add: augment_main_def)
  next
    case none: False
    then have "\<forall>s\<in>set segs. points s \<noteq> []" by blast
    from collect_endpoints_total[OF this] obtain eps where "collect_endpoints segs = Inr eps" ..
    from build_node_set_clusters[OF this, of b] obtain nodes sm em where
      n: "build_node_set b segs = Some (Inr (nodes, sm, em))" by blast
    from build_adjacency_degenerate[OF s short]
    have "build_adjacency segs nodes sm em = Inl IndexError" .
    with b n False show ?thesis by (simp add: augment_main_def)
  qed
qed

text \<open>
  Claim C4, as the code has it. A segment with fewer than two points is not dropped and
  nothing is logged: the whole run aborts, whatever the other segments are. The exception is
  a ValueError from \<^verbatim>\<open>compute_data_bounds\<close> when no segment has a point at all, and otherwise
  an IndexError, from \<^verbatim>\<open>build_node_set\<close> for a segment without points or from
  \<^verbatim>\<open>build_adjacency\<close> for a segment of one point. No graph is written.
\<close>

theorem degenerate_segment_aborts:
  assumes "s \<in> set segs" and "length (points s) < 2"
  shows "augment_main md5_hexdigest segs =
         Some (Inl (if \<forall>s\<in>set segs. points s = [] then ValueError else IndexError))"
  using assms by (rule augment_main_degenerate)

theorem degenerate_segment_aborts_witness:
  "ex_pointless \<in> set [ex_a, ex_pointless] \<and> length (points ex_pointless) = 0 \<and>
   augment_main id [ex_a, ex_pointless] = Some (Inl IndexError) \<and>
   augment_main id [ex_pointless] = Some (Inl ValueError)"
proof -
  have p: "length (points ex_pointless) < 2" "points ex_pointless = []" "points ex_a \<noteq> []"
    by (simp_all add: ex_pointless_def ex_a_def)
  have "augment_main id [ex_a, ex_pointless] = Some (Inl IndexError)"
    using degenerate_segment_aborts[of ex_pointless "[ex_a, ex_pointless]" id] p by simp
  moreover have "augment_main id [ex_pointless] = Some (Inl ValueError)"
    using degenerate_segment_aborts[of ex_pointless "[ex_pointless]" id] p by simp
  ultimately show ?thesis using p by simp
qed

text \<open>One good segment and one of a single point: the run ends in an IndexError instead of
  going on with the good segment.\<close>

theorem single_point_segment_is_fatal:
  "length (points ex_single) = 1 \<and> length (points ex_a) = 2 \<and>
   augment_main id [ex_a, ex_single] = Some (Inl IndexError)"
proof -
  have p: "length (points ex_single) < 2" "points ex_single \<noteq> []" "points ex_a \<noteq> []"
    by (simp_all add: ex_single_def ex_a_def)
  have "augment_main id [ex_a, ex_single] = Some (Inl IndexError)"
    using augment_main_degenerate[of ex_single "[ex_a, ex_single]" id] p by simp
  then show ?thesis by (simp add: ex_single_def ex_a_def)
qed

lemma round_half_even_error: "\<bar>of_int (round_half_even r) - r\<bar> \<le> 1 / 2"
proof -
  have "of_int \<lfloor>r\<rfloor> \<le> r" "r < of_int \<lfloor>r\<rfloor> + 1" by linarith+
  then show ?thesis by (auto simp: round_half_even_def Let_def)
qed

lemma py_round_error: "\<bar>py_round v 2 - v\<bar> \<le> 1 / 200"
proof -
  define X where "X = of_int (round_half_even (v * 100)) - v * 100"
  have eq: "py_round v 2 - v = X / 100" by (simp add: X_def py_round_def field_simps)
  have "\<bar>X\<bar> \<le> 1 / 2" unfolding X_def by (rule round_half_even_error)
  then show ?thesis unfolding eq by simp
qed

lemma cluster_node_boundary:
  "isBoundary (cluster_node b eps c l) \<longleftrightarrow>
     is_near_boundary b (fst (centroid eps l)) (snd (centroid eps l))"
  "position (cluster_node b eps c l) =
     (py_round (fst (centroid eps l)) 2, py_round (snd (centroid eps l)) 2)"
  by (simp_all add: cluster_node_def centroid_def Let_def)

text \<open>The stored position decides the flag, except within half a hundredth of a buffer line.\<close>

lemma position_decides_boundary:
  assumes "px' = py_round cx 2" and "pz' = py_round cz 2"
  shows "px' < xMin b + 49.995 \<or> xMax b - 49.995 < px' \<or> pz' < zMin b + 49.995 \<or>
         zMax b - 49.995 < pz' \<Longrightarrow> is_near_boundary b cx cz"
    and "is_near_boundary b cx cz \<Longrightarrow>
         px' < xMin b + 50.005 \<or> xMax b - 50.005 < px' \<or> pz' < zMin b + 50.005 \<or>
         zMax b - 50.005 < pz'"
proof -
  from py_round_error[of cx] py_round_error[of cz] assms
  have e: "\<bar>px' - cx\<bar> \<le> 1 / 200" "\<bar>pz' - cz\<bar> \<le> 1 / 200" by simp_all
  have d: "(49.995::real) = 9999 / 200" "(50.005::real) = 10001 / 200" by simp_all
  show "is_near_boundary b cx cz"
    if "px' < xMin b + 49.995 \<or> xMax b - 49.995 < px' \<or> pz' < zMin b + 49.995 \<or>
        zMax b - 49.995 < pz'"
    using that e unfolding is_near_boundary_def BOUNDARY_BUFFER_def d by linarith
  show "px' < xMin b + 50.005 \<or> xMax b - 50.005 < px' \<or> pz' < zMin b + 50.005 \<or>
         zMax b - 50.005 < pz'" if "is_near_boundary b cx cz"
    using that e unfolding is_near_boundary_def BOUNDARY_BUFFER_def d by linarith
qed

text \<open>The nodes of the output are the nodes clustering made.\<close>

lemma augment_main_nodes:
  assumes "compute_data_bounds segs = Inr b"
    and "build_node_set b segs = Some (Inr (nodes, sm, em))"
    and "augment_main h segs = Some (Inr out)"
  shows "out_nodes out = nodes"
proof -
  from assms have "bindE (Some (build_adjacency segs nodes sm em)) (\<lambda>adj.
     bindE (Some (augment_segments adj nodes sm em)) (\<lambda>graph.
       Some (Inr \<lparr>out_segments = graph, out_nodes = nodes,
                  majorSegmentCount = length (filter isMajor graph),
                  entryPointCount = length (filter isEntry graph),
                  totalSuccessorLinks = sum_list (map (\<lambda>s. length (successors s)) graph),
                  graphVersion = compute_graph_version h graph,
                  nodeCount = length nodes\<rparr>))) = Some (Inr out)"
    by (simp add: augment_main_def)
  then obtain adj graph where
    "out = \<lparr>out_segments = graph, out_nodes = nodes,
                  majorSegmentCount = length (filter isMajor graph),
                  entryPointCount = length (filter isEntry graph),
                  totalSuccessorLinks = sum_list (map (\<lambda>s. length (successors s)) graph),
                  graphVersion = compute_graph_version h graph,
                  nodeCount = length nodes\<rparr>"
    unfolding bindE_Some_Inr_iff by auto
  then show ?thesis by simp
qed

text \<open>Endpoints that are all near the first one make a single node.\<close>

lemma single_cluster_nodes:
  assumes ce: "collect_endpoints segs = Inr eps" and pos: "0 < length eps"
    and near0: "\<forall>j<length eps. distance (eps ! 0) (eps ! j) < SNAP_RADIUS"
  shows "\<exists>sm em. build_node_set b segs =
           Some (Inr ([(node_name 0, cluster_node b eps 0 [0..<length eps])], sm, em))"
proof -
  let ?n = "length eps"
  from build_node_set_clusters[OF ce, of b] obtain nodes sm em Ls where
    run: "build_node_set b segs = Some (Inr (nodes, sm, em))" and
    nodes: "nodes = map (\<lambda>(c, l). (node_name c, cluster_node b eps c l)) (zip [0..<length Ls] Ls)" and
    shape: "\<forall>c<length Ls. Ls ! c \<noteq> [] \<and> Ls ! c = filter (\<lambda>i. i \<in> set (Ls ! c)) [0..<?n]" and
    disj: "\<forall>c<length Ls. \<forall>c'<length Ls. c \<noteq> c' \<longrightarrow> set (Ls ! c) \<inter> set (Ls ! c') = {}" and
    cover: "\<forall>i<?n. \<exists>c<length Ls. i \<in> set (Ls ! c)" and
    near: "\<forall>c<length Ls. \<forall>i\<in>set (Ls ! c). \<forall>j<?n.
         distance (eps ! i) (eps ! j) < SNAP_RADIUS \<longrightarrow> j \<in> set (Ls ! c)"
    by blast
  from cover pos obtain c0 where c0: "c0 < length Ls" and m0: "0 \<in> set (Ls ! c0)" by blast
  have all: "j \<in> set (Ls ! c0)" if "j < ?n" for j
    using near c0 m0 near0 that by blast
  from shape c0 have e0: "Ls ! c0 = filter (\<lambda>i. i \<in> set (Ls ! c0)) [0..<?n]" by blast
  have "filter (\<lambda>i. i \<in> set (Ls ! c0)) [0..<?n] = [0..<?n]"
    by (rule filter_True) (simp add: all)
  with e0 have full: "Ls ! c0 = [0..<?n]" by simp
  have only: "c = c0" if c: "c < length Ls" for c
  proof (rule ccontr)
    assume ne: "c \<noteq> c0"
    from shape c have "Ls ! c \<noteq> []" and e: "Ls ! c = filter (\<lambda>i. i \<in> set (Ls ! c)) [0..<?n]"
      by blast+
    then obtain i where i: "i \<in> set (Ls ! c)" by (cases "Ls ! c") auto
    then have "i \<in> set (filter (\<lambda>i. i \<in> set (Ls ! c)) [0..<?n])" by (simp only: e[symmetric])
    then have "i < ?n" by simp
    from all[OF this] i disj c c0 ne show False by blast
  qed
  have "length Ls = 1"
  proof (rule ccontr)
    assume "length Ls \<noteq> 1"
    with c0 have "1 < length Ls" by simp
    then have "0 < length Ls" "Suc 0 < length Ls" by linarith+
    from only[OF this(1)] only[OF this(2)] show False by simp
  qed
  then obtain x where x: "Ls = [x]" by (cases Ls) auto
  with c0 have "c0 = 0" by simp
  with full x have "Ls = [[0..<?n]]" by simp
  with nodes have "nodes = [(node_name 0, cluster_node b eps 0 [0..<?n])]" by simp
  with run show ?thesis by blast
qed

text \<open>Every node is made of a cluster: its lists name the cluster's endpoints, its flag is
  taken at the cluster's centroid and its position is that centroid rounded.\<close>

lemma build_node_set_boundary:
  assumes ce: "collect_endpoints segs = Inr eps"
  shows "\<exists>nodes sm em. build_node_set b segs = Some (Inr (nodes, sm, em)) \<and>
     (\<forall>c<length nodes. \<exists>l. l \<noteq> [] \<and> set l \<subseteq> {0..<length eps} \<and>
        outgoing (snd (nodes ! c)) = map segment_id (filter is_start (map (\<lambda>i. eps ! i) l)) \<and>
        incoming (snd (nodes ! c)) =
          map segment_id (filter (\<lambda>e. \<not> is_start e) (map (\<lambda>i. eps ! i) l)) \<and>
        (isBoundary (snd (nodes ! c)) \<longleftrightarrow>
           is_near_boundary b (fst (centroid eps l)) (snd (centroid eps l))) \<and>
        position (snd (nodes ! c)) =
          (py_round (fst (centroid eps l)) 2, py_round (snd (centroid eps l)) 2))"
proof -
  let ?n = "length eps"
  from build_node_set_clusters[OF ce, of b] obtain nodes sm em Ls where
    run: "build_node_set b segs = Some (Inr (nodes, sm, em))" and
    nodes: "nodes = map (\<lambda>(c, l). (node_name c, cluster_node b eps c l)) (zip [0..<length Ls] Ls)" and
    shape: "\<forall>c<length Ls. Ls ! c \<noteq> [] \<and> Ls ! c = filter (\<lambda>i. i \<in> set (Ls ! c)) [0..<?n]"
    by blast
  note nn = cluster_nodes_nth[OF nodes]
  have "\<exists>l. l \<noteq> [] \<and> set l \<subseteq> {0..<?n} \<and>
        outgoing (snd (nodes ! c)) = map segment_id (filter is_start (map (\<lambda>i. eps ! i) l)) \<and>
        incoming (snd (nodes ! c)) =
          map segment_id (filter (\<lambda>e. \<not> is_start e) (map (\<lambda>i. eps ! i) l)) \<and>
        (isBoundary (snd (nodes ! c)) \<longleftrightarrow>
           is_near_boundary b (fst (centroid eps l)) (snd (centroid eps l))) \<and>
        position (snd (nodes ! c)) =
          (py_round (fst (centroid eps l)) 2, py_round (snd (centroid eps l)) 2)"
    if "c < length nodes" for c
  proof -
    from that have c: "c < length Ls" by (simp add: nn(1))
    from shape c have ne: "Ls ! c \<noteq> []" and e: "Ls ! c = filter (\<lambda>i. i \<in> set (Ls ! c)) [0..<?n]"
      by blast+
    have "set (filter (\<lambda>i. i \<in> set (Ls ! c)) [0..<?n]) \<subseteq> {0..<?n}" by auto
    then have sub: "set (Ls ! c) \<subseteq> {0..<?n}" by (simp only: e[symmetric])
    show ?thesis
      by (rule exI[of _ "Ls ! c"])
        (simp add: ne sub nn(2)[OF c] cluster_node_lists cluster_node_boundary)
  qed
  with run show ?thesis by blast
qed

text \<open>
  Claim C8, as the code has it. The data extent is computed once, from all raw points, before
  clustering. Clustering returns, and every node it makes stands for a non-empty cluster of
  endpoints: its flag \<^verbatim>\<open>isBoundary\<close> says whether the centroid of the cluster, unrounded, lies
  less than 50 from an edge of the extent, and its stored position is that centroid rounded
  to two decimals. So the stored position decides the flag only up to the rounding: a position
  less than 49.995 from an edge has the flag, and a node with the flag has a position less
  than 50.005 from an edge. The nodes that the run writes are the nodes clustering made,
  unchanged.
\<close>

theorem boundary_flag_from_centroid:
  assumes "compute_data_bounds segs = Inr b" and "collect_endpoints segs = Inr eps"
  shows "\<exists>nodes sm em. build_node_set b segs = Some (Inr (nodes, sm, em)) \<and>
     (\<forall>c<length nodes. \<exists>l. l \<noteq> [] \<and> set l \<subseteq> {0..<length eps} \<and>
        outgoing (snd (nodes ! c)) = map segment_id (filter is_start (map (\<lambda>i. eps ! i) l)) \<and>
        incoming (snd (nodes ! c)) =
          map segment_id (filter (\<lambda>e. \<not> is_start e) (map (\<lambda>i. eps ! i) l)) \<and>
        (isBoundary (snd (nodes ! c)) \<longleftrightarrow>
           is_near_boundary b (fst (centroid eps l)) (snd (centroid eps l))) \<and>
        position (snd (nodes ! c)) =
          (py_round (fst (centroid eps l)) 2, py_round (snd (centroid eps l)) 2)) \<and>
     (\<forall>c<length nodes.
        (fst (position (snd (nodes ! c))) < xMin b + 49.995 \<or>
         xMax b - 49.995 < fst (position (snd (nodes ! c))) \<or>
         snd (position (snd (nodes ! c))) < zMin b + 49.995 \<or>
         zMax b - 49.995 < snd (position (snd (nodes ! c))) \<longrightarrow> isBoundary (snd (nodes ! c))) \<and>
        (isBoundary (snd (nodes ! c)) \<longrightarrow>
         fst (position (snd (nodes ! c))) < xMin b + 50.005 \<or>
         xMax b - 50.005 < fst (position (snd (nodes ! c))) \<or>
         snd (position (snd (nodes ! c))) < zMin b + 50.005 \<or>
         zMax b - 50.005 < snd (position (snd (nodes ! c))))) \<and>
     (\<forall>out. augment_main md5_hexdigest segs = Some (Inr out) \<longrightarrow> out_nodes out = nodes)"
proof -
  from build_node_set_boundary[OF assms(2), of b] obtain nodes sm em where
    run: "build_node_set b segs = Some (Inr (nodes, sm, em))" and
    cl: "\<forall>c<length nodes. \<exists>l. l \<noteq> [] \<and> set l \<subseteq> {0..<length eps} \<and>
        outgoing (snd (nodes ! c)) = map segment_id (filter is_start (map (\<lambda>i. eps ! i) l)) \<and>
        incoming (snd (nodes ! c)) =
          map segment_id (filter (\<lambda>e. \<not> is_start e) (map (\<lambda>i. eps ! i) l)) \<and>
        (isBoundary (snd (nodes ! c)) \<longleftrightarrow>
           is_near_boundary b (fst (centroid eps l)) (snd (centroid eps l))) \<and>
        position (snd (nodes ! c)) =
          (py_round (fst (centroid eps l)) 2, py_round (snd (centroid eps l)) 2)"
    by blast
  have pos: "(fst (position (snd (nodes ! c))) < xMin b + 49.995 \<or>
         xMax b - 49.995 < fst (position (snd (nodes ! c))) \<or>
         snd (position (snd (nodes ! c))) < zMin b + 49.995 \<or>
         zMax b - 49.995 < snd (position (snd (nodes ! c))) \<longrightarrow> isBoundary (snd (nodes ! c))) \<and>
        (isBoundary (snd (nodes ! c)) \<longrightarrow>
         fst (position (snd (nodes ! c))) < xMin b + 50.005 \<or>
         xMax b - 50.005 < fst (position (snd (nodes ! c))) \<or>
         snd (position (snd (nodes ! c))) < zMin b + 50.005 \<or>
         zMax b - 50.005 < snd (position (snd (nodes ! c))))" if "c < length nodes" for c
  proof -
    from cl that obtain l where
      f: "isBoundary (snd (nodes ! c)) \<longleftrightarrow>
           is_near_boundary b (fst (centroid eps l)) (snd (centroid eps l))" and
      p: "position (snd (nodes ! c)) =
          (py_round (fst (centroid eps l)) 2, py_round (snd (centroid eps l)) 2)"
      by blast
    from p have px: "fst (position (snd (nodes ! c))) = py_round (fst (centroid eps l)) 2"
      and pz: "snd (position (snd (nodes ! c))) = py_round (snd (centroid eps l)) 2" by simp_all
    from position_decides_boundary[OF px pz, of b] show ?thesis unfolding f by blast
  qed
  have "\<forall>out. augment_main md5_hexdigest segs = Some (Inr out) \<longrightarrow> out_nodes out = nodes"
    using augment_main_nodes[OF assms(1) run] by blast
  with run cl pos show ?thesis by blast
qed

lemma ex_ring_collect:
  "collect_endpoints [ex_ring_in] =
     Inr [\<lparr>ep_x = 49.996, ep_z = 500, segment_id = ''r'', is_start = True\<rparr>,
          \<lparr>ep_x = 49.996, ep_z = 500, segment_id = ''r'', is_start = False\<rparr>]"
  "collect_endpoints [ex_ring_out] =
     Inr [\<lparr>ep_x = 50.004, ep_z = 500, segment_id = ''r'', is_start = True\<rparr>,
          \<lparr>ep_x = 50.004, ep_z = 500, segment_id = ''r'', is_start = False\<rparr>]"
  by (simp_all add: collect_endpoints_def segment_endpoints_def ex_ring_in_def ex_ring_out_def
      px_def pz_def)

lemma ex_ring_extent:
  "compute_data_bounds [ex_ring_in] = Inr ex_ring_bounds"
  "compute_data_bounds [ex_ring_out] = Inr ex_ring_bounds"
  by (simp_all add: compute_data_bounds_def py_min_def py_max_def ex_ring_in_def ex_ring_out_def
      ex_ring_bounds_def px_def pz_def Let_def)

lemma node_name_0: "node_name 0 = ''node_0000''"
  by (simp add: node_name_def str_nat_04_def str_nat.simps[of 0] digit_char_def eval_nat_numeral)

lemma ex_ring_nodes:
  "\<exists>sm em. build_node_set ex_ring_bounds [ex_ring_in] =
     Some (Inr ([(''node_0000'', \<lparr>node_id = ''node_0000'', position = (50, 500),
                   outgoing = [''r''], incoming = [''r''], isBoundary = True\<rparr>)], sm, em))"
  "\<exists>sm em. build_node_set ex_ring_bounds [ex_ring_out] =
     Some (Inr ([(''node_0000'', \<lparr>node_id = ''node_0000'', position = (50, 500),
                   outgoing = [''r''], incoming = [''r''], isBoundary = False\<rparr>)], sm, em))"
proof -
  let ?ein = "[\<lparr>ep_x = 49.996, ep_z = 500, segment_id = ''r'', is_start = True\<rparr>,
          \<lparr>ep_x = 49.996, ep_z = 500, segment_id = ''r'', is_start = False\<rparr>]"
  let ?eout = "[\<lparr>ep_x = 50.004, ep_z = 500, segment_id = ''r'', is_start = True\<rparr>,
          \<lparr>ep_x = 50.004, ep_z = 500, segment_id = ''r'', is_start = False\<rparr>]"
  have u: "[0..<length ?ein] = [0, 1]" "[0..<length ?eout] = [0, 1]"
    by (simp_all add: upt_rec)
  have nin: "\<forall>j<length ?ein. distance (?ein ! 0) (?ein ! j) < SNAP_RADIUS"
    by (simp add: distance_def SNAP_RADIUS_def less_Suc_eq)
  have nout: "\<forall>j<length ?eout. distance (?eout ! 0) (?eout ! j) < SNAP_RADIUS"
    by (simp add: distance_def SNAP_RADIUS_def less_Suc_eq)
  have cin: "cluster_node ex_ring_bounds ?ein 0 [0, 1] =
      \<lparr>node_id = ''node_0000'', position = (50, 500),
                   outgoing = [''r''], incoming = [''r''], isBoundary = True\<rparr>"
    by (simp add: cluster_node_def Let_def node_name_0 py_round_def round_half_even_def
        is_near_boundary_def ex_ring_bounds_def BOUNDARY_BUFFER_def)
  have cout: "cluster_node ex_ring_bounds ?eout 0 [0, 1] =
      \<lparr>node_id = ''node_0000'', position = (50, 500),
                   outgoing = [''r''], incoming = [''r''], isBoundary = False\<rparr>"
    by (simp add: cluster_node_def Let_def node_name_0 py_round_def round_half_even_def
        is_near_boundary_def ex_ring_bounds_def BOUNDARY_BUFFER_def)
  from single_cluster_nodes[OF ex_ring_collect(1) _ nin, of ex_ring_bounds]
  show "\<exists>sm em. build_node_set ex_ring_bounds [ex_ring_in] =
     Some (Inr ([(''node_0000'', \<lparr>node_id = ''node_0000'', position = (50, 500),
                   outgoing = [''r''], incoming = [''r''], isBoundary = True\<rparr>)], sm, em))"
    unfolding u cin node_name_0 by simp
  from single_cluster_nodes[OF ex_ring_collect(2) _ nout, of ex_ring_bounds]
  show "\<exists>sm em. build_node_set ex_ring_bounds [ex_ring_out] =
     Some (Inr ([(''node_0000'', \<lparr>node_id = ''node_0000'', position = (50, 500),
                   outgoing = [''r''], incoming = [''r''], isBoundary = False\<rparr>)], sm, em))"
    unfolding u cout node_name_0 by simp
qed

theorem boundary_flag_from_centroid_witness:
  "compute_data_bounds [ex_ring_out] = Inr ex_ring_bounds \<and>
   (\<exists>eps. collect_endpoints [ex_ring_out] = Inr eps) \<and>
   (\<exists>nodes sm em. build_node_set ex_ring_bounds [ex_ring_out] = Some (Inr (nodes, sm, em)) \<and>
      length nodes = 1 \<and> position (snd (nodes ! 0)) = (50, 500) \<and>
      \<not> isBoundary (snd (nodes ! 0)) \<and>
      \<not> fst (position (snd (nodes ! 0))) < xMin ex_ring_bounds + 49.995)"
proof -
  from boundary_flag_from_centroid[OF ex_ring_extent(2) ex_ring_collect(2), of id]
  obtain nodes sm em where
    run: "build_node_set ex_ring_bounds [ex_ring_out] = Some (Inr (nodes, sm, em))" and
    pos: "\<forall>c<length nodes.
        (fst (position (snd (nodes ! c))) < xMin ex_ring_bounds + 49.995 \<or>
         xMax ex_ring_bounds - 49.995 < fst (position (snd (nodes ! c))) \<or>
         snd (position (snd (nodes ! c))) < zMin ex_ring_bounds + 49.995 \<or>
         zMax ex_ring_bounds - 49.995 < snd (position (snd (nodes ! c))) \<longrightarrow>
           isBoundary (snd (nodes ! c))) \<and>
        (isBoundary (snd (nodes ! c)) \<longrightarrow>
         fst (position (snd (nodes ! c))) < xMin ex_ring_bounds + 50.005 \<or>
         xMax ex_ring_bounds - 50.005 < fst (position (snd (nodes ! c))) \<or>
         snd (position (snd (nodes ! c))) < zMin ex_ring_bounds + 50.005 \<or>
         zMax ex_ring_bounds - 50.005 < snd (position (snd (nodes ! c))))"
    by blast
  from ex_ring_nodes(2) run have n: "nodes = [(''node_0000'', \<lparr>node_id = ''node_0000'',
      position = (50, 500), outgoing = [''r''], incoming = [''r''], isBoundary = False\<rparr>)]"
    by auto
  then have l: "length nodes = 1" and p: "position (snd (nodes ! 0)) = (50, 500)"
    and f: "\<not> isBoundary (snd (nodes ! 0))" by simp_all
  from pos l f have "\<not> fst (position (snd (nodes ! 0))) < xMin ex_ring_bounds + 49.995"
    by auto
  with run l p f ex_ring_extent(2) ex_ring_collect(2) show ?thesis by blast
qed

text \<open>Two runs with the same data extent, each making one node at the stored position
  \<open>(50, 500)\<close>: the flag is set in one and not in the other.\<close>

theorem boundary_flag_differs_at_one_position:
  "compute_data_bounds [ex_ring_in] = Inr ex_ring_bounds \<and>
   compute_data_bounds [ex_ring_out] = Inr ex_ring_bounds \<and>
   map_option (map_sum id fst) (build_node_set ex_ring_bounds [ex_ring_in]) =
     Some (Inr [(''node_0000'', \<lparr>node_id = ''node_0000'', position = (50, 500),
                  outgoing = [''r''], incoming = [''r''], isBoundary = True\<rparr>)]) \<and>
   map_option (map_sum id fst) (build_node_set ex_ring_bounds [ex_ring_out]) =
     Some (Inr [(''node_0000'', \<lparr>node_id = ''node_0000'', position = (50, 500),
                  outgoing = [''r''], incoming = [''r''], isBoundary = False\<rparr>)])"
proof -
  from ex_ring_nodes(1) have "map_option (map_sum id fst) (build_node_set ex_ring_bounds [ex_ring_in]) =
     Some (Inr [(''node_0000'', \<lparr>node_id = ''node_0000'', position = (50, 500),
                  outgoing = [''r''], incoming = [''r''], isBoundary = True\<rparr>)])"
    by auto
  moreover from ex_ring_nodes(2) have "map_option (map_sum id fst) (build_node_set ex_ring_bounds [ex_ring_out]) =
     Some (Inr [(''node_0000'', \<lparr>node_id = ''node_0000'', position = (50, 500),
                  outgoing = [''r''], incoming = [''r''], isBoundary = False\<rparr>)])"
    by auto
  ultimately show ?thesis using ex_ring_extent by blast
qed

lemma insort_key_map: "insort_key f (g x) (map g ys) = map g (insort_key (\<lambda>a. f (g a)) x ys)"
  by (induction ys) simp_all

lemma sort_key_map: "sort_key f (map g xs) = map g (sort_key (\<lambda>a. f (g a)) xs)"
  by (induction xs) (simp_all add: insort_key_map)

lemma str_join_Cons: "ts \<noteq> [] \<Longrightarrow> str_join sep (s # ts) = s @ sep @ str_join sep ts"
  by (cases ts) simp_all

lemma str_join_head: "str_join sep (y # zs) = y @ concat (map (\<lambda>z. sep @ z) zs)"
  by (induction zs arbitrary: y) (simp_all add: str_join_Cons)

lemma str_join_split:
  "str_join sep (xs @ y # zs) =
     concat (map (\<lambda>x. x @ sep) xs) @ y @ concat (map (\<lambda>z. sep @ z) zs)"
proof (induction xs)
  case Nil
  show ?case by (simp add: str_join_head)
next
  case (Cons x xs)
  then show ?case by (simp add: str_join_Cons)
qed

lemma version_data_id_count:
  "version_data segs =
     str_join ''|'' (map (\<lambda>(i, n). i @ '':'' @ str_nat n) (sort_key fst (map id_count segs)))"
proof -
  have "sort_key fst (map id_count segs) = map id_count (sort_key seg_id segs)"
    by (simp add: sort_key_map id_count_def)
  then show ?thesis by (simp add: version_data_def id_count_def comp_def)
qed

lemma version_data_permuted:
  assumes "distinct (map seg_id xs)" and "mset (map id_count ys) = mset (map id_count xs)"
  shows "version_data ys = version_data xs"
proof -
  have e: "map fst (map id_count xs) = map seg_id xs" by (simp add: id_count_def)
  have "distinct (map fst (map id_count xs))" unfolding e by (rule assms(1))
  then have "inj_on fst (set (map id_count xs))" by (simp only: distinct_map)
  from sort_key_eq_sort_key[OF assms(2)[symmetric] this]
  show ?thesis by (simp add: version_data_id_count)
qed

lemma version_data_count_changed:
  fixes xs :: "'a segment_scheme list"
  assumes dist: "distinct (map seg_id xs)" and k: "k < length xs"
    and n: "length pts \<noteq> length (points (xs ! k))"
  shows "version_data (xs[k := (xs ! k)\<lparr>points := pts\<rparr>]) \<noteq> version_data xs"
proof
  let ?i = "seg_id (xs ! k)"
  let ?fmt = "\<lambda>s. seg_id s @ '':'' @ str_nat (length (points s))"
  define g :: "'a segment_scheme \<Rightarrow> 'a segment_scheme"
    where "g = (\<lambda>s. if seg_id s = ?i then s\<lparr>points := pts\<rparr> else s)"
  assume eq: "version_data (xs[k := (xs ! k)\<lparr>points := pts\<rparr>]) = version_data xs"
  have xs': "xs[k := (xs ! k)\<lparr>points := pts\<rparr>] = map g xs"
  proof (rule nth_equalityI)
    show "length (xs[k := (xs ! k)\<lparr>points := pts\<rparr>]) = length (map g xs)" by simp
    fix j assume "j < length (xs[k := (xs ! k)\<lparr>points := pts\<rparr>])"
    then have j: "j < length xs" by simp
    show "xs[k := (xs ! k)\<lparr>points := pts\<rparr>] ! j = map g xs ! j"
    proof (cases "j = k")
      case True
      with k show ?thesis by (simp add: g_def)
    next
      case False
      with dist j k have "seg_id (xs ! j) \<noteq> ?i"
        by (metis length_map nth_eq_iff_index_eq nth_map)
      with False j show ?thesis by (simp add: g_def)
    qed
  qed
  have "(\<lambda>a. seg_id (g a)) = seg_id" by (simp add: fun_eq_iff g_def)
  then have sorted': "sort_key seg_id (map g xs) = map g (sort_key seg_id xs)"
    by (simp add: sort_key_map)
  let ?S = "sort_key seg_id xs"
  have "xs ! k \<in> set ?S" using k by simp
  then obtain S1 S2 where S: "?S = S1 @ (xs ! k) # S2" by (meson split_list)
  have "distinct (map seg_id ?S)" using dist by (metis distinct_map distinct_sort set_sort)
  then have other: "\<forall>s\<in>set S1 \<union> set S2. seg_id s \<noteq> ?i"
    unfolding S by (auto simp: image_iff)
  then have m1: "map g S1 = S1" and m2: "map g S2 = S2"
    by (auto simp: g_def intro: map_idI)
  have gk: "g (xs ! k) = (xs ! k)\<lparr>points := pts\<rparr>" by (simp add: g_def)
  have "version_data (map g xs) =
      concat (map (\<lambda>x. x @ ''|'') (map ?fmt S1)) @ (?i @ '':'' @ str_nat (length pts)) @
      concat (map (\<lambda>z. ''|'' @ z) (map ?fmt S2))"
    unfolding version_data_def sorted' S by (simp add: m1 m2 gk str_join_split del: append_assoc)
  moreover have "version_data xs =
      concat (map (\<lambda>x. x @ ''|'') (map ?fmt S1)) @ (?i @ '':'' @ str_nat (length (points (xs ! k)))) @
      concat (map (\<lambda>z. ''|'' @ z) (map ?fmt S2))"
    unfolding version_data_def S by (simp add: str_join_split del: append_assoc)
  ultimately have "str_nat (length pts) = str_nat (length (points (xs ! k)))"
    using eq unfolding xs' by simp
  with str_nat_inj n show False by blast
qed

text \<open>A digest of twelve characters cannot tell all point counts apart.\<close>

lemma truncated_digest_collides:
  "\<exists>n m. n \<noteq> m \<and> compute_graph_version h [ex_counted n] = compute_graph_version h [ex_counted m]"
proof (rule ccontr)
  let ?f = "\<lambda>n. compute_graph_version h [ex_counted n]"
  assume "\<not> (\<exists>n m. n \<noteq> m \<and> ?f n = ?f m)"
  then have "inj ?f" by (auto simp: inj_on_def)
  then have inf: "infinite (range ?f)" using finite_imageD infinite_UNIV_nat by blast
  have "range ?f \<subseteq> {s. set s \<subseteq> (UNIV :: char set) \<and> length s \<le> 12}"
    by (auto simp: compute_graph_version_def)
  moreover have "finite {s. set s \<subseteq> (UNIV :: char set) \<and> length s \<le> 12}"
    by (rule finite_lists_length_le) simp
  ultimately have "finite (range ?f)" by (rule finite_subset)
  with inf show False by simp
qed

text \<open>
  Claim C7, as the code has it. The fingerprint is the first twelve characters of the digest
  of a string that lists \<open>id:count\<close> for every segment in the order of the ids. For a list of
  segments with distinct ids: every list with the same multiset of (id, point count) pairs has
  the same string, hence the same fingerprint, whatever the digest function; and changing the
  point count of one segment changes the string, so that the fingerprint changes unless the
  digests of the two strings agree on their first twelve characters.
\<close>

theorem graph_version_of_id_counts:
  fixes xs :: "'a segment_scheme list"
  assumes "distinct (map seg_id xs)" and "mset (map id_count ys) = mset (map id_count xs)"
  shows "version_data ys = version_data xs \<and>
         compute_graph_version md5_hexdigest ys = compute_graph_version md5_hexdigest xs \<and>
         (\<forall>k pts. k < length xs \<and> length pts \<noteq> length (points (xs ! k)) \<longrightarrow>
            version_data (xs[k := (xs ! k)\<lparr>points := pts\<rparr>]) \<noteq> version_data xs \<and>
            (compute_graph_version md5_hexdigest (xs[k := (xs ! k)\<lparr>points := pts\<rparr>]) =
               compute_graph_version md5_hexdigest xs \<longleftrightarrow>
             take 12 (md5_hexdigest (version_data (xs[k := (xs ! k)\<lparr>points := pts\<rparr>]))) =
               take 12 (md5_hexdigest (version_data xs))))"
proof -
  from version_data_permuted[OF assms] have "version_data ys = version_data xs" .
  moreover from this
  have "compute_graph_version md5_hexdigest ys = compute_graph_version md5_hexdigest xs"
    by (simp add: compute_graph_version_def)
  moreover have "version_data (xs[k := (xs ! k)\<lparr>points := pts\<rparr>]) \<noteq> version_data xs"
    if "k < length xs" "length pts \<noteq> length (points (xs ! k))" for k pts
    using version_data_count_changed[OF assms(1) that] .
  ultimately show ?thesis by (simp add: compute_graph_version_def)
qed

lemma ex_chain_version: "version_data ex_chain = ''sa:2|sb:2|sc:2''"
proof -
  have "str_nat (Suc (Suc 0)) = ''2''"
    by (simp add: str_nat.simps[of "Suc (Suc 0)"] digit_char_def)
  then show ?thesis by (simp add: version_data_def ex_chain_def)
qed

theorem graph_version_of_id_counts_witness:
  "distinct (map seg_id ex_chain) \<and>
   version_data ex_chain = ''sa:2|sb:2|sc:2'' \<and>
   version_data (rev ex_chain) = ''sa:2|sb:2|sc:2'' \<and>
   compute_graph_version id (rev ex_chain) = compute_graph_version id ex_chain \<and>
   version_data (ex_chain[1 := (ex_chain ! 1)\<lparr>points := [(5, 0, 0), (6, 0, 0), (7, 0, 0)]\<rparr>]) \<noteq>
     ''sa:2|sb:2|sc:2''"
proof -
  have d: "distinct (map seg_id ex_chain)" by (simp add: ex_chain_def)
  have m: "mset (map id_count (rev ex_chain)) = mset (map id_count ex_chain)" by (simp add: rev_map[symmetric])
  have k: "1 < length ex_chain"
    "length [(5, 0, 0), (6, 0, 0), (7::real, 0::real, 0::real)] \<noteq> length (points (ex_chain ! 1))"
    by (simp_all add: ex_chain_def)
  from graph_version_of_id_counts[OF d m, of id] k
  have "version_data (rev ex_chain) = version_data ex_chain"
    "compute_graph_version id (rev ex_chain) = compute_graph_version id ex_chain"
    "version_data (ex_chain[1 := (ex_chain ! 1)\<lparr>points := [(5, 0, 0), (6, 0, 0), (7, 0, 0)]\<rparr>]) \<noteq>
       version_data ex_chain"
    by blast+
  with d show ?thesis by (simp add: ex_chain_version)
qed

lemma replicate_numeral: "replicate (numeral k) x = x # replicate (pred_numeral k) x"
  by (simp add: numeral_eq_Suc)

lemmas md5_defs = hashlib_md5_def md5_digest_def md5_pad_def md5_block_def
  md5_f_def md5_g_def md5_h_def md5_i_def md5_round1_def md5_round2_def md5_round3_def
  md5_round4_def word32_def rotate_left32_def not32_def hex_digit_def le_bytes4_def Let_def
  replicate_numeral

lemma str_nat_digit: "n < 10 \<Longrightarrow> str_nat n = [digit_char n]"
  by (simp add: str_nat.simps[of n])

lemma str_nat_more: "10 \<le> n \<Longrightarrow> str_nat n = str_nat (n div 10) @ [digit_char (n mod 10)]"
  by (simp add: str_nat.simps[of n])

lemma ex_counted_fields:
  "seg_id (ex_counted n) = ''s''" "length (points (ex_counted n)) = n"
  by (simp_all add: ex_counted_def)

lemma ex_counted_version: "version_data [ex_counted n] = ''s:'' @ str_nat n"
  by (simp add: version_data_def ex_counted_fields)

lemma ex_counted_strings:
  "str_nat 7432632 = ''7432632''" "str_nat 16881573 = ''16881573''"
  by (simp_all add: str_nat_digit str_nat_more digit_char_def)

lemma ex_counted_digests:
  "hashlib_md5 ''s:7432632'' = ''b53d8883f97c0d36d52a0578d710b030''"
  "hashlib_md5 ''s:16881573'' = ''b53d8883f97cfa2bf26d581b724901d1''"
  by (simp_all add: md5_defs)

text \<open>One segment, with 7432632 points or with 16881573 points: the fingerprint is the same.\<close>

theorem fingerprint_misses_a_count_change:
  "length (points (ex_counted 7432632)) = 7432632 \<and>
   length (points (ex_counted 16881573)) = 16881573 \<and>
   [ex_counted 7432632][0 := ([ex_counted 7432632] ! 0)\<lparr>points := points (ex_counted 16881573)\<rparr>] =
     [ex_counted 16881573] \<and>
   version_data [ex_counted 7432632] = ''s:7432632'' \<and>
   version_data [ex_counted 16881573] = ''s:16881573'' \<and>
   compute_graph_version hashlib_md5 [ex_counted 7432632] = ''b53d8883f97c'' \<and>
   compute_graph_version hashlib_md5 [ex_counted 16881573] = ''b53d8883f97c''"
proof -
  have v: "version_data [ex_counted 7432632] = ''s:7432632''"
    "version_data [ex_counted 16881573] = ''s:16881573''"
    by (simp_all add: ex_counted_version ex_counted_strings)
  have "compute_graph_version hashlib_md5 [ex_counted 7432632] = ''b53d8883f97c''"
    "compute_graph_version hashlib_md5 [ex_counted 16881573] = ''b53d8883f97c''"
    unfolding compute_graph_version_def v ex_counted_digests by simp_all
  moreover have "[ex_counted 7432632][0 := ([ex_counted 7432632] ! 0)\<lparr>points := points (ex_counted 16881573)\<rparr>] =
     [ex_counted 16881573]"
    by (simp add: ex_counted_def)
  ultimately show ?thesis using v by (simp add: ex_counted_fields)
qed

end
